theory Spec2Isabelle
  imports Main "HOL-Library.Word"
begin

unbundle bit_operations_syntax

section \<open>Bytes, slices and Python values\<close>

text \<open>
  A byte buffer (\<open>bytes\<close>, \<open>array('B')\<close>) is a list of 8-bit words. Python integers
  are unbounded and modelled as \<open>int\<close>; lengths and non-negative indices are \<open>nat\<close>.
\<close>

type_synonym byte = "8 word"

text \<open>
  A Python \<open>str\<close> is a list of code points. \<open>ascii\<close> embeds the literals of the source.
\<close>

type_synonym pystr = "nat list"

definition ascii :: "string \<Rightarrow> pystr" where
  "ascii s = map of_char s"

text \<open>
  Exceptions are values. \<open>RuntimeError\<close> and \<open>ValueError\<close> carry the message text, as the
  source builds it. \<open>Diverges\<close> stands for a polling loop that never returns.
\<close>

datatype error =
    RuntimeError pystr
  | ValueError pystr
  | TypeError
  | StructError
  | IndexError
  | KeyError
  | OverflowError
  | ZeroDivisionError
  | UnicodeDecodeError
  | USBTimeoutError
  | NoBackendError
  | ImageError
  | Diverges

text \<open>\<open>xs[a:b]\<close> for non-negative \<open>a\<close>, \<open>b\<close>: clipped to the buffer, never raising.\<close>

definition slice :: "'a list \<Rightarrow> nat \<Rightarrow> nat \<Rightarrow> 'a list" where
  "slice xs a b = take (b - a) (drop a xs)"

text \<open>\<open>range(0, stop, step)\<close> for a positive step.\<close>

definition py_range :: "nat \<Rightarrow> nat \<Rightarrow> nat list" where
  "py_range stop step = map (\<lambda>k. k * step) [0 ..< (stop + step - 1) div step]"

text \<open>\<open>int.from_bytes(bs, 'little')\<close>, for a buffer of any length.\<close>

fun from_bytes_le :: "byte list \<Rightarrow> int" where
  "from_bytes_le [] = 0"
| "from_bytes_le (b # bs) = uint b + 256 * from_bytes_le bs"

text \<open>\<open>xs[lo:hi]\<close> for arbitrary integers: negative indices count from the end.\<close>

definition clamp_index :: "nat \<Rightarrow> int \<Rightarrow> nat" where
  "clamp_index n i = (if i < 0 then nat (max 0 (int n + i)) else min n (nat i))"

definition py_slice :: "'a list \<Rightarrow> int \<Rightarrow> int \<Rightarrow> 'a list" where
  "py_slice xs lo hi = slice xs (clamp_index (length xs) lo) (clamp_index (length xs) hi)"

text \<open>\<open>xs[i]\<close> for a non-negative index: \<open>IndexError\<close> out of range.\<close>

definition index :: "'a list \<Rightarrow> nat \<Rightarrow> error + 'a" where
  "index xs i = (if i < length xs then Inr (xs ! i) else Inl IndexError)"

text \<open>\<open>n.to_bytes(4, 'little')\<close>: \<open>OverflowError\<close> when the value does not fit.\<close>

definition to_bytes4 :: "int \<Rightarrow> error + byte list" where
  "to_bytes4 n =
     (if n < 0 \<or> 2 ^ 32 \<le> n then Inl OverflowError
      else Inr (map (\<lambda>i. word_of_int (drop_bit (8 * i) n)) [0 ..< 4]))"

subsection \<open>Formatting\<close>

definition digit_char :: "nat \<Rightarrow> nat" where
  "digit_char d = (if d < 10 then 48 + d else 87 + d)"

text \<open>The digits of \<open>n\<close> in base \<open>b\<close> (lower case), most significant first.\<close>

function digits :: "nat \<Rightarrow> nat \<Rightarrow> pystr" where
  "digits b n =
     (if b < 2 \<or> n < b then [digit_char n]
      else digits b (n div b) @ [digit_char (n mod b)])"
  by pat_completeness auto
termination
  by (relation "measure (\<lambda>(b, n). n)") auto

declare digits.simps [simp del]

text \<open>\<open>str(i)\<close>, also \<open>f'{i}'\<close>.\<close>

definition str_int :: "int \<Rightarrow> pystr" where
  "str_int i = (if i < 0 then ascii ''-'' @ digits 10 (nat (- i)) else digits 10 (nat i))"

text \<open>\<open>f'{i:x}'\<close>, \<open>hex(i)\<close> and \<open>f'{i:08x}'\<close> (the sign counts in the width).\<close>

definition fmt_x :: "int \<Rightarrow> pystr" where
  "fmt_x i = (if i < 0 then ascii ''-'' @ digits 16 (nat (- i)) else digits 16 (nat i))"

definition py_hex :: "int \<Rightarrow> pystr" where
  "py_hex i = (if i < 0 then ascii ''-0x'' @ digits 16 (nat (- i)) else ascii ''0x'' @ digits 16 (nat i))"

definition zfill :: "nat \<Rightarrow> pystr \<Rightarrow> pystr" where
  "zfill width ds = replicate (width - length ds) 48 @ ds"

definition fmt_08x :: "int \<Rightarrow> pystr" where
  "fmt_08x i =
     (if i < 0 then ascii ''-'' @ zfill 7 (digits 16 (nat (- i))) else zfill 8 (digits 16 (nat i)))"

text \<open>\<open>repr\<close> of a \<open>bytes\<close> object and of a list of integers, as an f-string prints them.\<close>

definition repr_byte :: "nat \<Rightarrow> nat \<Rightarrow> pystr" where
  "repr_byte quote c =
     (if c = quote \<or> c = 92 then [92, c]
      else if c = 9 then [92, 116]
      else if c = 10 then [92, 110]
      else if c = 13 then [92, 114]
      else if c < 32 \<or> 127 \<le> c then [92, 120] @ zfill 2 (digits 16 c)
      else [c])"

definition repr_bytes :: "byte list \<Rightarrow> pystr" where
  "repr_bytes bs =
     (let cs = map unat bs;
          quote = (if 39 \<in> set cs \<and> 34 \<notin> set cs then 34 else 39)
      in ascii ''b'' @ [quote] @ concat (map (repr_byte quote) cs) @ [quote])"

fun join_comma :: "pystr list \<Rightarrow> pystr" where
  "join_comma [] = []"
| "join_comma [x] = x"
| "join_comma (x # y # ys) = x @ ascii '', '' @ join_comma (y # ys)"

definition repr_ints :: "int list \<Rightarrow> pystr" where
  "repr_ints xs = ascii ''['' @ join_comma (map str_int xs) @ ascii '']''"

subsection \<open>\<open>bytes.decode()\<close>: strict UTF-8\<close>

definition cont :: "nat \<Rightarrow> bool" where
  "cont b = (128 \<le> b \<and> b < 192)"

fun utf8 :: "nat list \<Rightarrow> pystr option" where
  "utf8 [] = Some []"
| "utf8 (a # bs) =
     (if a < 128 then map_option ((#) a) (utf8 bs)
      else if 194 \<le> a \<and> a < 224 then
        (case bs of
           b # r \<Rightarrow>
             if cont b then map_option ((#) ((a - 192) * 64 + (b - 128))) (utf8 r) else None
         | _ \<Rightarrow> None)
      else if 224 \<le> a \<and> a < 240 then
        (case bs of
           b # c # r \<Rightarrow>
             if cont b \<and> cont c \<and> (if a = 224 then 160 \<le> b else True)
                \<and> (if a = 237 then b < 160 else True)
             then map_option ((#) ((a - 224) * 4096 + (b - 128) * 64 + (c - 128))) (utf8 r)
             else None
         | _ \<Rightarrow> None)
      else if 240 \<le> a \<and> a < 245 then
        (case bs of
           b # c # d # r \<Rightarrow>
             if cont b \<and> cont c \<and> cont d \<and> (if a = 240 then 144 \<le> b else True)
                \<and> (if a = 244 then b < 144 else True)
             then map_option
                    ((#) ((a - 240) * 262144 + (b - 128) * 4096 + (c - 128) * 64 + (d - 128)))
                    (utf8 r)
             else None
         | _ \<Rightarrow> None)
      else None)"

definition decode :: "byte list \<Rightarrow> error + pystr" where
  "decode bs = (case utf8 (map unat bs) of None \<Rightarrow> Inl UnicodeDecodeError | Some s \<Rightarrow> Inr s)"

subsection \<open>\<open>int(text, base)\<close> for base 0 and base 16\<close>

definition is_space :: "nat \<Rightarrow> bool" where
  "is_space c = (c = 32 \<or> (9 \<le> c \<and> c \<le> 13))"

definition digit_value :: "nat \<Rightarrow> nat option" where
  "digit_value c =
     (if 48 \<le> c \<and> c \<le> 57 then Some (c - 48)
      else if 97 \<le> c \<and> c \<le> 122 then Some (c - 87)
      else if 65 \<le> c \<and> c \<le> 90 then Some (c - 55)
      else None)"

text \<open>
  Digits with single underscores between them; \<open>us\<close> tells that the previous character
  was an underscore.
\<close>

fun digits_value :: "nat \<Rightarrow> nat \<Rightarrow> bool \<Rightarrow> nat list \<Rightarrow> nat option" where
  "digits_value base acc us [] = (if us then None else Some acc)"
| "digits_value base acc us (c # cs) =
     (if c = 95 then (if us then None else digits_value base acc True cs)
      else (case digit_value c of
              None \<Rightarrow> None
            | Some d \<Rightarrow> if d < base then digits_value base (acc * base + d) False cs else None))"

text \<open>
  The number after the sign. With base 0 the prefix chooses the base, and a decimal
  literal with a leading zero must be zero. One underscore may follow a prefix.
\<close>

definition unsigned_value :: "nat \<Rightarrow> nat list \<Rightarrow> nat option" where
  "unsigned_value base cs =
     (let pfx = (\<lambda>l u. case cs of a # b # _ \<Rightarrow> a = 48 \<and> (b = l \<or> b = u) | _ \<Rightarrow> False);
          b = (if base = 0 then
                 (if pfx 120 88 then 16 else if pfx 111 79 then 8 else if pfx 98 66 then 2 else 10)
               else base);
          old_octal = (base = 0 \<and> b = 10 \<and> (case cs of a # _ \<Rightarrow> a = 48 | _ \<Rightarrow> False));
          body = (if (b = 16 \<and> pfx 120 88) \<or> (b = 8 \<and> pfx 111 79) \<or> (b = 2 \<and> pfx 98 66)
                  then (let r = drop 2 cs in if take 1 r = [95] then drop 1 r else r) else cs)
      in case body of
           [] \<Rightarrow> None
         | c # _ \<Rightarrow>
             if c = 95 then None
             else (case digits_value b 0 False body of
                     None \<Rightarrow> None
                   | Some v \<Rightarrow> if old_octal \<and> v \<noteq> 0 then None else Some v))"

text \<open>
  Surrounding white space is dropped and one sign is read. The model covers ASCII text,
  which is all a \<open>bytes\<close> argument can hold: a character outside ASCII is rejected, where
  CPython would still read the Unicode decimal digits and spaces of a \<open>str\<close>. The text
  of the \<open>ValueError\<close> is cut after \<open>int()\<close>: CPython goes on with the base and the \<open>repr\<close>
  of the literal.
\<close>

definition py_int :: "nat \<Rightarrow> nat list \<Rightarrow> error + int" where
  "py_int base text =
     (let t = rev (dropWhile is_space (rev (dropWhile is_space text)));
          neg = (case t of c # _ \<Rightarrow> c = 45 | _ \<Rightarrow> False);
          signed = (case t of c # _ \<Rightarrow> c = 45 \<or> c = 43 | _ \<Rightarrow> False);
          r = (if signed then drop 1 t else t)
      in case unsigned_value base r of
           None \<Rightarrow> Inl (ValueError (ascii ''invalid literal for int()''))
         | Some v \<Rightarrow> Inr (if neg then - int v else int v))"

section \<open>The addsum checksum\<close>

subsection \<open>ADNL session: \<open>adnl_checksum\<close> (adnl.py)\<close>

text \<open>
  \<^verbatim>\<open>return sum(int.from_bytes(buf[i:i + 4], 'little')
             for i in range(0, len(buf), 4)) & 0xffffffff\<close>
\<close>

definition adnl_checksum :: "byte list \<Rightarrow> int" where
  "adnl_checksum buf =
     sum_list (map (\<lambda>i. from_bytes_le (slice buf i (i + 4))) (py_range (length buf) 4))
       AND 0xffffffff"

subsection \<open>Legacy session: \<open>_amlsChecksum\<close> (pyamlboot.py)\<close>

text \<open>
  \<open>struct.unpack\<close> of one little-endian unsigned field of \<open>n\<close> bytes: the buffer must
  hold exactly \<open>n\<close> bytes (\<open>struct.error\<close> otherwise).
\<close>

definition unpack_le :: "nat \<Rightarrow> byte list \<Rightarrow> error + int" where
  "unpack_le n bs = (if length bs = n then Inr (from_bytes_le bs) else Inl StructError)"

text \<open>\<open>bs.ljust(n, b'\x00')\<close>.\<close>

definition ljust0 :: "byte list \<Rightarrow> nat \<Rightarrow> byte list" where
  "ljust0 bs n = bs @ replicate (n - length bs) 0"

text \<open>
  The value of one step of the loop. The data is a \<open>bytes\<close> object, so in the last
  branch \<open>data[offset]\<close> is an \<open>int\<close>, and \<open>unpack('<B', data[offset])\<close> raises
  \<open>TypeError\<close> (a bytes-like object is required).
\<close>

definition amls_val :: "byte list \<Rightarrow> nat \<Rightarrow> error + int" where
  "amls_val data offset =
     (let left = length data - offset in
      if left \<ge> 4 then unpack_le 4 (slice data offset (offset + 4))
      else if left \<ge> 3 then
        (case unpack_le 4 (ljust0 (slice data offset (offset + 4)) 4) of
           Inl e \<Rightarrow> Inl e
         | Inr v \<Rightarrow> Inr (v AND 0xffffff))
      else if left \<ge> 2 then unpack_le 2 (slice data offset (offset + 2))
      else Inl TypeError)"

definition uint32_max :: int where
  "uint32_max = push_bit 32 1"

function amls_loop :: "byte list \<Rightarrow> nat \<Rightarrow> int \<Rightarrow> error + int" where
  "amls_loop data offset checksum =
     (if offset < length data then
        (case amls_val data offset of
           Inl e \<Rightarrow> Inl e
         | Inr val \<Rightarrow> amls_loop data (offset + 4) ((checksum + \<bar>val\<bar>) mod uint32_max))
      else Inr checksum)"
  by pat_completeness auto
termination
  by (relation "measure (\<lambda>(data, offset, checksum). length data - offset)") auto

declare amls_loop.simps [simp del]

definition amlsChecksum :: "byte list \<Rightarrow> error + int" where
  "amlsChecksum data = amls_loop data 0 0"

subsection \<open>The reference addsum of the specification\<close>

text \<open>
  The sum of the little-endian 32-bit words of the buffer, the last word read with zero
  padding to the right when fewer than four bytes are left, modulo \<open>2^32\<close>.
\<close>

fun words_le :: "byte list \<Rightarrow> int list" where
  "words_le [] = []"
| "words_le (b # bs) = from_bytes_le (ljust0 (take 4 (b # bs)) 4) # words_le (drop 3 bs)"

definition addsum :: "byte list \<Rightarrow> int" where
  "addsum B = sum_list (words_le B) mod 2 ^ 32"

section \<open>Legacy session: large memory writes (pyamlboot.py)\<close>

text \<open>
  The legacy session talks to the device through \<open>dev.ctrl_transfer\<close> (request type
  \<open>0x40\<close>) and the bulk-OUT endpoint. The model records every transfer in order:
  \<open>Ctrl bRequest wValue wIndex data\<close> and \<open>Bulk data\<close>.
\<close>

datatype xfer = Ctrl nat nat nat "byte list" | Bulk "byte list"

definition REQ_WR_LARGE_MEM :: nat where
  "REQ_WR_LARGE_MEM = 0x11"

definition MAX_LARGE_BLOCK_COUNT :: nat where
  "MAX_LARGE_BLOCK_COUNT = 65535"

text \<open>\<open>pack('<IIII', a, b, c, d)\<close>: every field must fit 32 unsigned bits.\<close>

definition pack_IIII :: "int \<Rightarrow> int \<Rightarrow> int \<Rightarrow> int \<Rightarrow> error + byte list" where
  "pack_IIII a b c d =
     (case (to_bytes4 a, to_bytes4 b, to_bytes4 c, to_bytes4 d) of
        (Inr x, Inr y, Inr z, Inr u) \<Rightarrow> Inr (x @ y @ z @ u)
      | _ \<Rightarrow> Inl StructError)"

text \<open>
  \<^verbatim>\<open>while blockCount > 0:
      ep.write(data[offset:offset + blockLength], 1000)
      offset = offset + blockLength
      blockCount = blockCount - 1\<close>
\<close>

fun write_blocks :: "byte list \<Rightarrow> nat \<Rightarrow> nat \<Rightarrow> nat \<Rightarrow> xfer list \<Rightarrow> xfer list" where
  "write_blocks data blockLength offset 0 log = log"
| "write_blocks data blockLength offset (Suc blockCount) log =
     write_blocks data blockLength (offset + blockLength) blockCount
       (log @ [Bulk (slice data offset (offset + blockLength))])"

text \<open>
  \<open>_writeLargeMemory\<close>. \<open>int(len(data) / blockLength)\<close> is the integer quotient for the
  lengths a 32-bit length field admits; a zero block length raises at the first \<open>%\<close>.
\<close>

definition priv_writeLargeMemory ::
  "int \<Rightarrow> byte list \<Rightarrow> nat \<Rightarrow> bool \<Rightarrow> xfer list \<Rightarrow> (error + unit) \<times> xfer list" where
  "priv_writeLargeMemory address data0 blockLength appendZeros log =
     (if blockLength = 0 then (Inl ZeroDivisionError, log)
      else if \<not> appendZeros \<and> length data0 mod blockLength \<noteq> 0 then
        (Inl (ValueError (ascii ''Large Data must be a multiple of block length'')), log)
      else
        (let data = (if appendZeros
                     then data0 @ replicate (length data0 mod blockLength) 0 else data0);
             blockCount = length data div blockLength
                          + (if length data mod blockLength > 0 then 1 else 0)
         in case pack_IIII address (int (length data)) 0 0 of
              Inl e \<Rightarrow> (Inl e, log)
            | Inr controlData \<Rightarrow>
                (Inr (), write_blocks data blockLength 0 blockCount
                           (log @ [Ctrl REQ_WR_LARGE_MEM blockLength blockCount controlData]))))"

text \<open>The loop of \<open>writeLargeMemory\<close> over the super-transfers.\<close>

fun writeLargeMemory_loop ::
  "int \<Rightarrow> byte list \<Rightarrow> nat \<Rightarrow> bool \<Rightarrow> nat \<Rightarrow> nat \<Rightarrow> xfer list \<Rightarrow> (error + unit) \<times> xfer list" where
  "writeLargeMemory_loop address data blockLength appendZeros 0 offset log = (Inr (), log)"
| "writeLargeMemory_loop address data blockLength appendZeros (Suc transferCount) offset log =
     (let writeLength =
            (if offset + MAX_LARGE_BLOCK_COUNT * blockLength > length data
             then length data - offset else MAX_LARGE_BLOCK_COUNT * blockLength)
      in case priv_writeLargeMemory (address + int offset)
                (slice data offset (offset + writeLength)) blockLength appendZeros log of
           (Inl e, log') \<Rightarrow> (Inl e, log')
         | (Inr _, log') \<Rightarrow>
             writeLargeMemory_loop address data blockLength appendZeros transferCount
               (offset + writeLength) log')"

definition writeLargeMemory ::
  "int \<Rightarrow> byte list \<Rightarrow> nat \<Rightarrow> bool \<Rightarrow> xfer list \<Rightarrow> (error + unit) \<times> xfer list" where
  "writeLargeMemory address data blockLength appendZeros log =
     (if blockLength = 0 then (Inl ZeroDivisionError, log)
      else
        (let blockCount = length data div blockLength
                          + (if length data mod blockLength > 0 then 1 else 0);
             transferCount = blockCount div MAX_LARGE_BLOCK_COUNT
                             + (if blockCount mod MAX_LARGE_BLOCK_COUNT > 0 then 1 else 0)
         in writeLargeMemory_loop address data blockLength appendZeros transferCount 0 log))"

section \<open>ADNL session: the USB world (adnl.py)\<close>

text \<open>
  A command handed to \<open>epout.write\<close> is a \<open>str\<close>, a \<open>bytes\<close> object or a list of integers.
\<close>

datatype frame = Str pystr | Bytes "byte list" | Ints "int list"

text \<open>An outcome of \<open>usb.core.find\<close>: no libusb backend, no device, or a device at an address.\<close>

datatype found = NoBackend | NoDevice | Device nat

text \<open>Every effect of the driver, in the order it happens.\<close>

datatype event = Write frame | Read "byte list" | Sleep nat | Find found

text \<open>
  Modelled from the spec: the image container and its items (the reader of the image file
  is a collaborator outside the driver). An item is a read-only cursor over a named image
  component, with \<open>size()\<close>, \<open>seek(offset)\<close> and \<open>read([n])\<close>; a missing item, a read past the
  end and a bad seek are image errors.
\<close>

record item =
  main_type :: pystr
  sub_type :: pystr
  content :: "byte list"
  cursor :: nat

text \<open>
  The world of a burn session, driven by a mocked transport: \<open>inbox\<close> holds what the
  successive calls of \<open>epin.read\<close> return (a read with nothing left times out), \<open>bus\<close> what
  the successive calls of \<open>usb.core.find\<close> return, \<open>image\<close> the items of the container, and
  \<open>trace\<close> records the effects. A device exposes its bulk-OUT and bulk-IN endpoints on
  interface 0.
\<close>

record world =
  trace :: "event list"
  inbox :: "byte list list"
  bus :: "found list"
  image :: "item list"

type_synonym 'a io = "world \<Rightarrow> (error + 'a) \<times> world"

definition io_return :: "'a \<Rightarrow> 'a io" where
  "io_return x w = (Inr x, w)"

definition io_raise :: "error \<Rightarrow> 'a io" where
  "io_raise e w = (Inl e, w)"

definition io_lift :: "error + 'a \<Rightarrow> 'a io" where
  "io_lift r w = (r, w)"

definition io_bind :: "'a io \<Rightarrow> ('a \<Rightarrow> 'b io) \<Rightarrow> 'b io" where
  "io_bind m f w = (case m w of (Inl e, w') \<Rightarrow> (Inl e, w') | (Inr x, w') \<Rightarrow> f x w')"

definition io_then :: "'a io \<Rightarrow> 'b io \<Rightarrow> 'b io" where
  "io_then m k = io_bind m (\<lambda>_. k)"

text \<open>\<open>try: m  except RuntimeError as e: raise RuntimeError(text) from e\<close>.\<close>

definition reraise_runtime :: "'a io \<Rightarrow> pystr \<Rightarrow> 'a io" where
  "reraise_runtime m text w =
     (case m w of
        (Inl (RuntimeError _), w') \<Rightarrow> (Inl (RuntimeError text), w')
      | r \<Rightarrow> r)"

definition ep_write :: "frame \<Rightarrow> unit io" where
  "ep_write cmd w = (Inr (), w\<lparr>trace := trace w @ [Write cmd]\<rparr>)"

definition ep_read :: "byte list io" where
  "ep_read w =
     (case inbox w of
        [] \<Rightarrow> (Inl USBTimeoutError, w)
      | msg # rest \<Rightarrow> (Inr msg, w\<lparr>trace := trace w @ [Read msg], inbox := rest\<rparr>))"

definition sleep :: "nat \<Rightarrow> unit io" where
  "sleep n w = (Inr (), w\<lparr>trace := trace w @ [Sleep n]\<rparr>)"

text \<open>\<open>usb.core.find\<close>: once the script of the bus is used up, no device shows up any more.\<close>

definition usb_find :: "found io" where
  "usb_find w =
     (case bus w of
        [] \<Rightarrow> (Inr NoDevice, w\<lparr>trace := trace w @ [Find NoDevice]\<rparr>)
      | NoBackend # rest \<Rightarrow> (Inl NoBackendError, w\<lparr>trace := trace w @ [Find NoBackend], bus := rest\<rparr>)
      | f # rest \<Rightarrow> (Inr f, w\<lparr>trace := trace w @ [Find f], bus := rest\<rparr>))"

subsection \<open>Items of the image\<close>

text \<open>
  Modelled from the spec: \<open>item_get\<close> of the container and the operations of an item
  (\<open>main_type()\<close>, \<open>sub_type()\<close>, \<open>size()\<close>, \<open>seek(offset)\<close>, \<open>read(n)\<close> and \<open>read()\<close>, which
  returns the item from its cursor to its end). An item is held by its position in the
  container; \<open>item_get\<close> returns the first item of that type pair.
\<close>

definition item_get :: "pystr \<Rightarrow> pystr \<Rightarrow> nat io" where
  "item_get mt st w =
     (case filter (\<lambda>i. main_type (image w ! i) = mt \<and> sub_type (image w ! i) = st)
             [0 ..< length (image w)] of
        [] \<Rightarrow> (Inl ImageError, w)
      | i # _ \<Rightarrow> (Inr i, w))"

definition item_seek :: "nat \<Rightarrow> int \<Rightarrow> unit io" where
  "item_seek h offset w =
     (if h < length (image w) \<and> 0 \<le> offset \<and> offset \<le> int (length (content (image w ! h)))
      then (Inr (), w\<lparr>image := (image w)[h := (image w ! h)\<lparr>cursor := nat offset\<rparr>]\<rparr>)
      else (Inl ImageError, w))"

definition item_read :: "nat \<Rightarrow> int \<Rightarrow> byte list io" where
  "item_read h n w =
     (if h < length (image w) \<and> 0 \<le> n
         \<and> cursor (image w ! h) + nat n \<le> length (content (image w ! h))
      then (let it = image w ! h in
            (Inr (slice (content it) (cursor it) (cursor it + nat n)),
             w\<lparr>image := (image w)[h := it\<lparr>cursor := cursor it + nat n\<rparr>]\<rparr>))
      else (Inl ImageError, w))"

definition item_read_all :: "nat \<Rightarrow> byte list io" where
  "item_read_all h w =
     (if h < length (image w)
      then (let it = image w ! h in
            (Inr (drop (cursor it) (content it)),
             w\<lparr>image := (image w)[h := it\<lparr>cursor := length (content it)\<rparr>]\<rparr>))
      else (Inl ImageError, w))"

definition item_size :: "nat \<Rightarrow> int io" where
  "item_size h w =
     (if h < length (image w) then (Inr (int (length (content (image w ! h)))), w)
      else (Inl ImageError, w))"

definition item_sub_type :: "nat \<Rightarrow> pystr io" where
  "item_sub_type h w =
     (if h < length (image w) then (Inr (sub_type (image w ! h)), w) else (Inl ImageError, w))"

definition item_main_type :: "nat \<Rightarrow> pystr io" where
  "item_main_type h w =
     (if h < length (image w) then (Inr (main_type (image w ! h)), w) else (Inl ImageError, w))"

section \<open>ADNL session: frame codec and stage identifier (adnl.py)\<close>

definition ADNL_REPLY_OKAY :: pystr where "ADNL_REPLY_OKAY = ascii ''OKAY''"
definition ADNL_REPLY_FAIL :: pystr where "ADNL_REPLY_FAIL = ascii ''FAIL''"
definition ADNL_REPLY_INFO :: pystr where "ADNL_REPLY_INFO = ascii ''INFO''"
definition ADNL_REPLY_DATA :: pystr where "ADNL_REPLY_DATA = ascii ''DATA''"

definition USB_BULK_SIZE :: nat where "USB_BULK_SIZE = 16384"

definition BOOTROM_BURNSTEPS_0 :: int where "BOOTROM_BURNSTEPS_0 = 0xC0040000"
definition BOOTROM_BURNSTEPS_1 :: int where "BOOTROM_BURNSTEPS_1 = 0xC0040001"
definition BOOTROM_BURNSTEPS_2 :: int where "BOOTROM_BURNSTEPS_2 = 0xC0040002"
definition BOOTROM_BURNSTEPS_3 :: int where "BOOTROM_BURNSTEPS_3 = 0xC0040003"

definition TPL_BURNSTEPS_0 :: int where "TPL_BURNSTEPS_0 = 0xC0041030"
definition TPL_BURNSTEPS_1 :: int where "TPL_BURNSTEPS_1 = 0xC0041031"
definition TPL_BURNSTEPS_2 :: int where "TPL_BURNSTEPS_2 = 0xC0041032"

datatype Stage = ROM | SPL | TPL

text \<open>\<open>Stage(value)\<close> and \<open>stage.name\<close> (the display names of the class).\<close>

definition Stage_of :: "int \<Rightarrow> error + Stage" where
  "Stage_of v =
     (if v = 0 then Inr ROM else if v = 8 then Inr SPL else if v = 16 then Inr TPL
      else Inl (ValueError (str_int v @ ascii '' is not a valid Stage'')))"

fun Stage_name :: "Stage \<Rightarrow> pystr" where
  "Stage_name ROM = ascii ''BootROM''"
| "Stage_name SPL = ascii ''BL2''"
| "Stage_name TPL = ascii ''U-Boot''"

datatype SocFamily = A1 | C1 | SC2 | C2 | T5 | T5D | T7 | S4

definition SocFamily_of :: "int \<Rightarrow> error + SocFamily" where
  "SocFamily_of v =
     (if v = 0x2c then Inr A1 else if v = 0x30 then Inr C1 else if v = 0x32 then Inr SC2
      else if v = 0x33 then Inr C2 else if v = 0x34 then Inr T5 else if v = 0x35 then Inr T5D
      else if v = 0x36 then Inr T7 else if v = 0x37 then Inr S4
      else Inl (ValueError (str_int v @ ascii '' is not a valid SocFamily'')))"

fun SocFamily_name :: "SocFamily \<Rightarrow> pystr" where
  "SocFamily_name A1 = ascii ''A1''"
| "SocFamily_name C1 = ascii ''C1''"
| "SocFamily_name SC2 = ascii ''SC2''"
| "SocFamily_name C2 = ascii ''C2''"
| "SocFamily_name T5 = ascii ''T5''"
| "SocFamily_name T5D = ascii ''T5D''"
| "SocFamily_name T7 = ascii ''T7''"
| "SocFamily_name S4 = ascii ''S4''"

text \<open>\<open>FeatSecurebootMask[name]\<close>: the member of that name, \<open>KeyError\<close> when there is none.\<close>

definition FeatSecurebootMask :: "pystr \<Rightarrow> error + int" where
  "FeatSecurebootMask name =
     (if name = ascii ''A1'' then Inr 0x1
      else if name = ascii ''C1'' then Inr 0x1
      else if name = ascii ''C2'' then Inr 0x1
      else if name = ascii ''T5'' then Inr 0x10
      else if name = ascii ''T5D'' then Inr 0x10
      else Inl KeyError)"

text \<open>The control block word the device sends during the SPL stage.\<close>

record CBW =
  cbw_seq :: int
  cbw_size :: int
  cbw_offs :: int
  cbw_need_checksum :: bool
  cbw_end :: int

definition CBW_init :: "byte list \<Rightarrow> error + CBW" where
  "CBW_init msg =
     (case decode (slice msg 4 8) of
        Inl e \<Rightarrow> Inl e
      | Inr magic \<Rightarrow>
          if magic \<noteq> ascii ''AMLC'' then Inl (RuntimeError (ascii ''Unexpected CBW magic''))
          else (case index msg 21 of
                  Inl e \<Rightarrow> Inl e
                | Inr e \<Rightarrow>
                    Inr \<lparr>cbw_seq = from_bytes_le (slice msg 8 12),
                         cbw_size = from_bytes_le (slice msg 12 16),
                         cbw_offs = from_bytes_le (slice msg 16 20),
                         cbw_need_checksum = (from_bytes_le (slice msg 20 21) = 0),
                         cbw_end = uint e\<rparr>))"

definition adnl_get_prefix :: "byte list \<Rightarrow> error + pystr" where
  "adnl_get_prefix msg = decode (slice msg 0 4)"

text \<open>How an f-string prints a command.\<close>

fun format_frame :: "frame \<Rightarrow> pystr" where
  "format_frame (Str s) = s"
| "format_frame (Bytes bs) = repr_bytes bs"
| "format_frame (Ints xs) = repr_ints xs"

definition send_cmd :: "frame \<Rightarrow> pystr \<Rightarrow> byte list io" where
  "send_cmd cmd expected_res =
     io_then (ep_write cmd)
     (io_bind ep_read (\<lambda>msg.
        if length msg < 4 then
          io_raise (RuntimeError (ascii ''Too short reply: '' @ str_int (int (length msg))))
        else
          io_bind (io_lift (adnl_get_prefix msg)) (\<lambda>header.
            if header \<noteq> expected_res then
              io_raise (RuntimeError (ascii ''Unexpected reply:'' @ header
                                      @ ascii '' to cmd:'' @ format_frame cmd))
            else io_return msg)))"

definition send_cmd_identify :: "Stage io" where
  \<open>send_cmd_identify =
     io_bind (send_cmd (Str (ascii ''getvar:identify'')) ADNL_REPLY_OKAY) (\<lambda>msg.
     io_bind (io_lift (index msg 4)) (\<lambda>proto.
       if proto \<noteq> 0x5 then
         io_raise (RuntimeError (ascii ''Unexpected data in reply to "identify"''))
       else io_bind (io_lift (index msg 7)) (\<lambda>st. io_lift (Stage_of (uint st)))))\<close>

definition get_chipinfo :: "int \<Rightarrow> int option \<Rightarrow> int option \<Rightarrow> byte list io" where
  "get_chipinfo page offset nbytes =
     io_bind send_cmd_identify (\<lambda>stage.
       if stage \<noteq> ROM \<and> stage \<noteq> SPL then
         io_raise (RuntimeError (ascii ''chipinfo-'' @ str_int page
                     @ ascii '' can't be queried from stage:'' @ Stage_name stage
                     @ ascii ''. Programmer error.''))
       else if \<not> (0 \<le> page \<and> page \<le> 7) then
         io_raise (RuntimeError (ascii ''page index:'' @ str_int page
                     @ ascii '' is out of range [0, 7]''))
       else
         io_bind (send_cmd (Str (ascii ''getvar:getchipinfo-'' @ str_int page)) ADNL_REPLY_OKAY)
           (\<lambda>reply.
              let msg = drop 4 reply;
                  offset = (case offset of None \<Rightarrow> 0 | Some v \<Rightarrow> v);
                  nbytes = (case nbytes of None \<Rightarrow> int (length msg) | Some v \<Rightarrow> v)
              in if offset > 0 \<and> offset + nbytes \<ge> int (length msg) then
                   io_raise (RuntimeError (ascii ''Bad parameters: out of bound access''))
                 else io_return (py_slice msg offset (offset + nbytes))))"

definition adnl_get_feat :: "int io" where
  "adnl_get_feat =
     io_bind (get_chipinfo 1 (Some 0x24) (Some 4)) (\<lambda>feat. io_return (from_bytes_le feat))"

definition adnl_get_soc_family_id :: "SocFamily io" where
  "adnl_get_soc_family_id =
     io_bind (get_chipinfo 1 (Some 0x4) (Some 4)) (\<lambda>soc_fid.
       io_lift (SocFamily_of (from_bytes_le soc_fid)))"

definition is_secureboot_enabled :: "int io" where
  "is_secureboot_enabled =
     io_bind send_cmd_identify (\<lambda>stage.
       if stage \<noteq> ROM then
         io_raise (RuntimeError (ascii ''Non suitable stage:'' @ Stage_name stage
                     @ ascii '' for 'secureboot' query''))
       else
         io_bind adnl_get_feat (\<lambda>feat.
         io_bind adnl_get_soc_family_id (\<lambda>soc_fid.
         io_bind (io_lift (FeatSecurebootMask (SocFamily_name soc_fid))) (\<lambda>sb_mask.
           io_return (feat AND sb_mask)))))"

definition send_burnsteps :: "int \<Rightarrow> unit io" where
  "send_burnsteps burnstep =
     io_then (send_cmd (Str (ascii ''setvar:burnsteps'')) ADNL_REPLY_DATA)
     (io_bind (io_lift (to_bytes4 burnstep)) (\<lambda>arg.
      io_then (send_cmd (Bytes arg) ADNL_REPLY_OKAY) (io_return ())))"

section \<open>ADNL session: the three stages (adnl.py)\<close>

text \<open>
  Reading consumes the inbox. The loops of the driver end because every round reads at
  least one reply, or makes one poll of the bus.
\<close>

definition inbox_le :: "'a io \<Rightarrow> bool" where
  "inbox_le m = (\<forall>w. length (inbox (snd (m w))) \<le> length (inbox w))"

definition inbox_lt :: "'a io \<Rightarrow> bool" where
  "inbox_lt m = (\<forall>w x w'. m w = (Inr x, w') \<longrightarrow> length (inbox w') < length (inbox w))"

lemma inbox_leD: "inbox_le m \<Longrightarrow> m w = (r, w') \<Longrightarrow> length (inbox w') \<le> length (inbox w)"
  unfolding inbox_le_def by (metis snd_conv)

lemma inbox_ltD: "inbox_lt m \<Longrightarrow> m w = (Inr x, w') \<Longrightarrow> length (inbox w') < length (inbox w)"
  unfolding inbox_lt_def by blast

lemma inbox_le_return [simp]: "inbox_le (io_return x)"
  and inbox_le_raise [simp]: "inbox_le (io_raise e)"
  and inbox_le_lift [simp]: "inbox_le (io_lift r)"
  and inbox_le_write [simp]: "inbox_le (ep_write c)"
  and inbox_le_sleep [simp]: "inbox_le (sleep n)"
  by (simp_all add: inbox_le_def io_return_def io_raise_def io_lift_def ep_write_def sleep_def)

lemma inbox_le_read [simp]: "inbox_le ep_read"
  by (auto simp: inbox_le_def ep_read_def split: list.splits)

lemma inbox_lt_read [simp]: "inbox_lt ep_read"
  by (auto simp: inbox_lt_def ep_read_def split: list.splits)

lemma inbox_le_find [simp]: "inbox_le usb_find"
  by (auto simp: inbox_le_def usb_find_def split: list.splits found.splits)

lemma inbox_le_items [simp]:
  "inbox_le (item_get mt st)" "inbox_le (item_seek h off)" "inbox_le (item_read h n)"
  "inbox_le (item_read_all h)" "inbox_le (item_size h)" "inbox_le (item_sub_type h)"
  "inbox_le (item_main_type h)"
  by (auto simp: inbox_le_def item_get_def item_seek_def item_read_def item_read_all_def
      item_size_def item_sub_type_def item_main_type_def Let_def split: list.splits)

lemma inbox_le_bind:
  assumes "inbox_le m" "\<And>x. inbox_le (f x)"
  shows "inbox_le (io_bind m f)"
  unfolding inbox_le_def
proof
  fix w
  obtain r w1 where m: "m w = (r, w1)" by (cases "m w")
  have 1: "length (inbox w1) \<le> length (inbox w)" using inbox_leD[OF assms(1) m] .
  show "length (inbox (snd (io_bind m f w))) \<le> length (inbox w)"
  proof (cases r)
    case (Inl e)
    then show ?thesis using m 1 by (simp add: io_bind_def)
  next
    case (Inr x)
    obtain r2 w2 where f: "f x w1 = (r2, w2)" by (cases "f x w1")
    have "length (inbox w2) \<le> length (inbox w1)" using inbox_leD[OF assms(2) f] .
    then show ?thesis using Inr m f 1 by (simp add: io_bind_def)
  qed
qed

lemma inbox_le_then: "inbox_le m \<Longrightarrow> inbox_le k \<Longrightarrow> inbox_le (io_then m k)"
  unfolding io_then_def by (rule inbox_le_bind)

lemma inbox_le_reraise: "inbox_le m \<Longrightarrow> inbox_le (reraise_runtime m text)"
  unfolding inbox_le_def reraise_runtime_def
  by (auto split: prod.splits sum.splits error.splits) (metis snd_conv)+

lemma inbox_lt_bind1:
  assumes "inbox_lt m" "\<And>x. inbox_le (f x)"
  shows "inbox_lt (io_bind m f)"
  unfolding inbox_lt_def
proof (intro allI impI)
  fix w y w'
  assume b: "io_bind m f w = (Inr y, w')"
  obtain r w1 where m: "m w = (r, w1)" by (cases "m w")
  from b m obtain x where r: "r = Inr x" and f: "f x w1 = (Inr y, w')"
    by (cases r) (auto simp: io_bind_def)
  have "length (inbox w1) < length (inbox w)" using inbox_ltD[OF assms(1)] m r by simp
  moreover have "length (inbox w') \<le> length (inbox w1)" using inbox_leD[OF assms(2) f] .
  ultimately show "length (inbox w') < length (inbox w)" by simp
qed

lemma inbox_lt_bind2:
  assumes "inbox_le m" "\<And>x. inbox_lt (f x)"
  shows "inbox_lt (io_bind m f)"
  unfolding inbox_lt_def
proof (intro allI impI)
  fix w y w'
  assume b: "io_bind m f w = (Inr y, w')"
  obtain r w1 where m: "m w = (r, w1)" by (cases "m w")
  from b m obtain x where r: "r = Inr x" and f: "f x w1 = (Inr y, w')"
    by (cases r) (auto simp: io_bind_def)
  have "length (inbox w1) \<le> length (inbox w)" using inbox_leD[OF assms(1) m] .
  moreover have "length (inbox w') < length (inbox w1)" using inbox_ltD[OF assms(2) f] .
  ultimately show "length (inbox w') < length (inbox w)" by simp
qed

lemmas inbox_le_intros = inbox_le_bind inbox_le_then inbox_le_reraise

lemma inbox_le_send_cmd [simp]: "inbox_le (send_cmd cmd expected_res)"
  unfolding send_cmd_def by (auto intro!: inbox_le_intros)

lemma inbox_lt_send_cmd [simp]: "inbox_lt (send_cmd cmd expected_res)"
  unfolding send_cmd_def io_then_def
proof (rule inbox_lt_bind2)
  show "inbox_le (ep_write cmd)" by simp
  show "inbox_lt (io_bind ep_read (\<lambda>msg.
        if length msg < 4 then
          io_raise (RuntimeError (ascii ''Too short reply: '' @ str_int (int (length msg))))
        else
          io_bind (io_lift (adnl_get_prefix msg)) (\<lambda>header.
            if header \<noteq> expected_res then
              io_raise (RuntimeError (ascii ''Unexpected reply:'' @ header
                                      @ ascii '' to cmd:'' @ format_frame cmd))
            else io_return msg)))" for u :: unit
    by (rule inbox_lt_bind1) (auto intro!: inbox_le_intros)
qed

lemma inbox_le_send_cmd_identify [simp]: "inbox_le send_cmd_identify"
  unfolding send_cmd_identify_def by (auto intro!: inbox_le_intros)

lemma inbox_le_send_burnsteps [simp]: "inbox_le (send_burnsteps b)"
  unfolding send_burnsteps_def by (auto intro!: inbox_le_intros)

subsection \<open>ROM stage\<close>

text \<open>\<open>[(sum >> i) & 0xff for i in range(0, 32, 8)]\<close>.\<close>

definition bytes_sum :: "int \<Rightarrow> int list" where
  "bytes_sum v = map (\<lambda>i. drop_bit i v AND 0xff) (py_range 32 8)"

definition send_and_handle_cbw :: "CBW io" where
  "send_and_handle_cbw =
     io_bind (send_cmd (Str (ascii ''getvar:cbw'')) ADNL_REPLY_OKAY) (\<lambda>msg.
       io_lift (CBW_init msg))"

text \<open>
  \<open>has_secureboot\<close> is the integer that \<open>is_secureboot_enabled\<close> returned, tested for
  truth. The reply to \<open>getvar:downloadsize\<close> is cut at its first NUL byte and parsed by
  \<open>int(..., 0)\<close>; \<open>item.read()\<close> has no size argument and returns the item from its cursor
  to its end.
\<close>

definition run_bootrom_stage :: "int \<Rightarrow> unit io" where
  "run_bootrom_stage has_secureboot =
     (let sub_type = (if has_secureboot \<noteq> 0 then ascii ''DDR_ENC'' else ascii ''DDR'') in
      io_bind (item_get (ascii ''USB'') sub_type) (\<lambda>item.
      io_then (send_cmd (Str (ascii ''getvar:serialno'')) ADNL_REPLY_OKAY)
      (io_then (send_cmd (Str (ascii ''getvar:getchipinfo-1'')) ADNL_REPLY_OKAY)
      (io_then (send_cmd (Str (ascii ''getvar:getchipinfo-0'')) ADNL_REPLY_OKAY)
      (io_then (send_cmd (Str (ascii ''getvar:getchipinfo-1'')) ADNL_REPLY_OKAY)
      (io_then (send_cmd (Str (ascii ''getvar:getchipinfo-2'')) ADNL_REPLY_OKAY)
      (io_then (send_cmd (Str (ascii ''getvar:getchipinfo-3'')) ADNL_REPLY_OKAY)
      (io_then (send_burnsteps BOOTROM_BURNSTEPS_0)
      (io_then (send_cmd (Str (ascii ''getvar:getchipinfo-1'')) ADNL_REPLY_OKAY)
      (io_then (send_burnsteps BOOTROM_BURNSTEPS_1)
      (io_bind (send_cmd (Str (ascii ''getvar:downloadsize'')) ADNL_REPLY_OKAY) (\<lambda>msg.
       io_bind (io_lift (py_int 0 (map unat (drop 4 (takeWhile (\<lambda>b. b \<noteq> 0) msg))))) (\<lambda>bl2_size.
       io_then (send_cmd (Str (ascii ''download:'' @ fmt_08x bl2_size)) ADNL_REPLY_DATA)
      (io_bind (item_read_all item) (\<lambda>data.
       io_then (send_cmd (Bytes data) ADNL_REPLY_OKAY)
      (io_then (send_burnsteps BOOTROM_BURNSTEPS_2)
      (io_then (send_cmd (Str (ascii ''boot'')) ADNL_REPLY_OKAY)
      (io_return ()))))))))))))))))))"

subsection \<open>BL2 stage\<close>

text \<open>
  \<^verbatim>\<open>while size > 0:
      to_send = min(size, USB_BULK_SIZE)
      send_cmd(epout, epin, f'download:{to_send:08x}', ADNL_REPLY_DATA)
      try: send_cmd(epout, epin, buf[buf_offs:buf_offs + to_send])
      except RuntimeError as e: raise RuntimeError('Data tx failed') from e
      cur_sum += adnl_checksum(buf[buf_offs:buf_offs + to_send])
      size -= to_send
      buf_offs += to_send\<close>
  The function returns \<open>cur_sum\<close>.
\<close>

function bl2_send_chunks :: "byte list \<Rightarrow> int \<Rightarrow> nat \<Rightarrow> int \<Rightarrow> int io" where
  "bl2_send_chunks buf sz buf_offs cur_sum w =
     (if sz > 0 then
        (let to_send = min sz (int USB_BULK_SIZE);
             chunk = slice buf buf_offs (buf_offs + nat to_send) in
         case send_cmd (Str (ascii ''download:'' @ fmt_08x to_send)) ADNL_REPLY_DATA w of
           (Inl e, w1) \<Rightarrow> (Inl e, w1)
         | (Inr _, w1) \<Rightarrow>
             (case reraise_runtime (send_cmd (Bytes chunk) ADNL_REPLY_OKAY)
                     (ascii ''Data tx failed'') w1 of
                (Inl e, w2) \<Rightarrow> (Inl e, w2)
              | (Inr _, w2) \<Rightarrow>
                  bl2_send_chunks buf (sz - to_send) (buf_offs + nat to_send)
                    (cur_sum + adnl_checksum chunk) w2))
      else (Inr cur_sum, w))"
  by pat_completeness auto
termination
  by (relation "measure (\<lambda>(buf, sz, buf_offs, cur_sum, w). nat sz)")
     (auto simp: USB_BULK_SIZE_def)

declare bl2_send_chunks.simps [simp del]

lemma inbox_le_bl2_send_chunks [simp]: "inbox_le (bl2_send_chunks buf sz buf_offs cur_sum)"
  unfolding inbox_le_def
proof
  fix w
  show "length (inbox (snd (bl2_send_chunks buf sz buf_offs cur_sum w))) \<le> length (inbox w)"
  proof (induction buf sz buf_offs cur_sum w rule: bl2_send_chunks.induct)
    case (1 buf sz buf_offs cur_sum w)
    let ?to_send = "min sz (int USB_BULK_SIZE)"
    let ?chunk = "slice buf buf_offs (buf_offs + nat ?to_send)"
    let ?c1 = "send_cmd (Str (ascii ''download:'' @ fmt_08x ?to_send)) ADNL_REPLY_DATA"
    let ?c2 = "reraise_runtime (send_cmd (Bytes ?chunk) ADNL_REPLY_OKAY) (ascii ''Data tx failed'')"
    show ?case
    proof (cases "sz > 0")
      case False
      then show ?thesis by (subst bl2_send_chunks.simps) simp
    next
      case True
      obtain r1 w1 where c1: "?c1 w = (r1, w1)" by (cases "?c1 w")
      have l1: "length (inbox w1) \<le> length (inbox w)"
        using inbox_leD[OF inbox_le_send_cmd c1] .
      show ?thesis
      proof (cases r1)
        case (Inl e)
        then show ?thesis using True c1 l1 by (subst bl2_send_chunks.simps) (simp add: Let_def)
      next
        case r1: (Inr m1)
        obtain r2 w2 where c2: "?c2 w1 = (r2, w2)" by (cases "?c2 w1")
        have l2: "length (inbox w2) \<le> length (inbox w1)"
          using inbox_leD[OF inbox_le_reraise[OF inbox_le_send_cmd] c2] .
        show ?thesis
        proof (cases r2)
          case (Inl e)
          then show ?thesis using True c1 r1 c2 l1 l2
            by (subst bl2_send_chunks.simps) (simp add: Let_def)
        next
          case r2: (Inr m2)
          have "length (inbox (snd (bl2_send_chunks buf (sz - ?to_send)
                  (buf_offs + nat ?to_send) (cur_sum + adnl_checksum ?chunk) w2))) \<le> length (inbox w2)"
            using "1.IH"[OF True refl refl c1[symmetric] _ c2[symmetric]] r1 r2 by simp
          then show ?thesis using True c1 r1 c2 r2 l1 l2
            by (subst bl2_send_chunks.simps) (simp add: Let_def)
        qed
      qed
    qed
  qed
qed

text \<open>One round of the loop after a CBW that is not the last.\<close>

definition bl2_transfer :: "nat \<Rightarrow> CBW \<Rightarrow> unit io" where
  "bl2_transfer item cbw =
     io_then (item_seek item (cbw_offs cbw))
     (io_bind (item_read item (cbw_size cbw)) (\<lambda>buf.
      io_bind (bl2_send_chunks buf (cbw_size cbw) 0 0) (\<lambda>cur_sum.
      io_then (send_cmd (Str (ascii ''setvar:checksum'')) ADNL_REPLY_DATA)
     (io_then (reraise_runtime (send_cmd (Ints (bytes_sum cur_sum)) ADNL_REPLY_OKAY)
                 (ascii ''CRC error during tx''))
     (io_return ())))))"

lemma inbox_le_bl2_transfer [simp]: "inbox_le (bl2_transfer item cbw)"
  unfolding bl2_transfer_def by (auto intro!: inbox_le_intros)

lemma inbox_lt_send_and_handle_cbw [simp]: "inbox_lt send_and_handle_cbw"
  unfolding send_and_handle_cbw_def by (rule inbox_lt_bind1) simp_all

text \<open>
  \<^verbatim>\<open>while True:
      cbw = send_and_handle_cbw(epout, epin)
      size = cbw.size()
      if cbw.done() != 0: break
      ...\<close>
\<close>

function cbw_loop :: "nat \<Rightarrow> unit io" where
  "cbw_loop item w =
     (case send_and_handle_cbw w of
        (Inl e, w1) \<Rightarrow> (Inl e, w1)
      | (Inr cbw, w1) \<Rightarrow>
          if cbw_end cbw \<noteq> 0 then (Inr (), w1)
          else (case bl2_transfer item cbw w1 of
                  (Inl e, w2) \<Rightarrow> (Inl e, w2)
                | (Inr _, w2) \<Rightarrow> cbw_loop item w2))"
  by pat_completeness auto
termination
proof (relation "measure (\<lambda>(item, w). length (inbox w))", goal_cases)
  case 1
  show ?case by simp
next
  case (2 item w x1 w1 cbw x2 w2 u)
  have "length (inbox w1) < length (inbox w)"
    using inbox_ltD[OF inbox_lt_send_and_handle_cbw, of w cbw w1] 2 by simp
  moreover have "length (inbox w2) \<le> length (inbox w1)"
    using inbox_leD[OF inbox_le_bl2_transfer, of item cbw w1 x2 w2] 2 by simp
  ultimately show ?case by simp
qed

declare cbw_loop.simps [simp del]

definition run_bl2_stage :: "int \<Rightarrow> unit io" where
  "run_bl2_stage has_secureboot =
     io_bind send_cmd_identify (\<lambda>stage.
       if stage \<noteq> SPL then
         io_raise (RuntimeError (ascii ''Stage:'' @ Stage_name stage
           @ ascii ''. Seems, BL2 has not been booted yet. ''
           @ ascii ''Probably, you are trying to boot for example the unsigned ''
           @ ascii ''BL2 on securebooted device. Check your image, please''))
       else
         io_then (send_burnsteps BOOTROM_BURNSTEPS_3)
         (let sub_type = (if has_secureboot \<noteq> 0 then ascii ''UBOOT_ENC'' else ascii ''UBOOT'') in
          io_bind (item_get (ascii ''USB'') sub_type) cbw_loop))"

subsection \<open>TPL stage\<close>

definition startswith :: "pystr \<Rightarrow> pystr \<Rightarrow> bool" where
  "startswith s p = (take (length p) s = p)"

text \<open>\<open>s.split(sep)\<close> for a separator of one character.\<close>

fun split_on :: "nat \<Rightarrow> pystr \<Rightarrow> pystr list" where
  "split_on c [] = [[]]"
| "split_on c (x # xs) =
     (if x = c then [] # split_on c xs
      else (case split_on c xs of [] \<Rightarrow> [[x]] | p # ps \<Rightarrow> (x # p) # ps))"

function tpl_send_chunks :: "byte list \<Rightarrow> int \<Rightarrow> nat \<Rightarrow> unit io" where
  "tpl_send_chunks buf sz buf_offs w =
     (if sz > 0 then
        (let to_send = min sz (int USB_BULK_SIZE) in
         case ep_write (Bytes (slice buf buf_offs (buf_offs + nat to_send))) w of
           (Inl e, w1) \<Rightarrow> (Inl e, w1)
         | (Inr _, w1) \<Rightarrow> tpl_send_chunks buf (sz - to_send) (buf_offs + nat to_send) w1)
      else (Inr (), w))"
  by pat_completeness auto
termination
  by (relation "measure (\<lambda>(buf, sz, buf_offs, w). nat sz)") (auto simp: USB_BULK_SIZE_def)

declare tpl_send_chunks.simps [simp del]

lemma inbox_tpl_send_chunks: "inbox (snd (tpl_send_chunks buf sz buf_offs w)) = inbox w"
proof (induction buf sz buf_offs w rule: tpl_send_chunks.induct)
  case (1 buf sz buf_offs w)
  show ?case
  proof (cases "sz > 0")
    case False
    then show ?thesis by (subst tpl_send_chunks.simps) simp
  next
    case True
    let ?w1 = "w\<lparr>trace := trace w @ [Write (Bytes (slice buf buf_offs
                 (buf_offs + nat (min sz (int USB_BULK_SIZE)))))]\<rparr>"
    have "inbox (snd (tpl_send_chunks buf (sz - min sz (int USB_BULK_SIZE))
             (buf_offs + nat (min sz (int USB_BULK_SIZE))) ?w1)) = inbox ?w1"
      using "1.IH"[OF True refl, of "Inr ()" ?w1 "()"] by (simp add: ep_write_def)
    then show ?thesis using True
      by (subst tpl_send_chunks.simps) (simp add: Let_def ep_write_def)
  qed
qed

lemma inbox_le_tpl_send_chunks [simp]: "inbox_le (tpl_send_chunks buf sz buf_offs)"
  by (simp add: inbox_le_def inbox_tpl_send_chunks)

text \<open>
  One round of the upload loop after a \<open>DATAOUT<size>:<offset>\<close> reply: the window of the
  partition is read, sent in blocks, and followed by its addsum.
\<close>

definition tpl_data_round :: "nat \<Rightarrow> pystr \<Rightarrow> unit io" where
  "tpl_data_round part_item strmsg =
     (let size_offs = split_on 58 (drop 7 strmsg) in
      io_bind (io_lift (case index size_offs 0 of Inl e \<Rightarrow> Inl e | Inr t \<Rightarrow> py_int 16 t)) (\<lambda>sz.
      io_bind (io_lift (case index size_offs 1 of Inl e \<Rightarrow> Inl e | Inr t \<Rightarrow> py_int 16 t)) (\<lambda>offs.
      io_then (item_seek part_item offs)
     (io_bind (item_read part_item sz) (\<lambda>buf.
      io_then (tpl_send_chunks buf sz 0)
     (io_then (reraise_runtime (send_cmd (Ints (bytes_sum (adnl_checksum buf))) ADNL_REPLY_OKAY)
                 (ascii ''CRC error during tx''))
     (io_return ())))))))"

lemma inbox_le_tpl_data_round [simp]: "inbox_le (tpl_data_round part_item strmsg)"
  unfolding tpl_data_round_def Let_def by (auto intro!: inbox_le_intros)

function tpl_upload :: "nat \<Rightarrow> unit io" where
  \<open>tpl_upload part_item w =
     (case io_then (ep_write (Str (ascii ''mwrite:verify=addsum''))) ep_read w of
        (Inl e, w1) \<Rightarrow> (Inl e, w1)
      | (Inr msg, w1) \<Rightarrow>
          (case decode msg of
             Inl e \<Rightarrow> (Inl e, w1)
           | Inr strmsg \<Rightarrow>
               if startswith strmsg ADNL_REPLY_OKAY then (Inr (), w1)
               else if \<not> startswith strmsg (ascii ''DATAOUT'') then
                 (Inl (RuntimeError
                    (ascii ''Unexpected reply to "mwrite:verify=addsum": '' @ strmsg)), w1)
               else (case tpl_data_round part_item strmsg w1 of
                       (Inl e, w2) \<Rightarrow> (Inl e, w2)
                     | (Inr _, w2) \<Rightarrow> tpl_upload part_item w2)))\<close>
  by pat_completeness auto
termination
proof (relation "measure (\<lambda>(part_item, w). length (inbox w))")
  show "wf (measure (\<lambda>(part_item, w). length (inbox w)))" by simp
next
  fix part_item :: nat and w w1 w2 :: world and x1 msg x2 strmsg x3 and u :: unit
  assume a: "(x1, w1) = io_then (ep_write (Str (ascii ''mwrite:verify=addsum''))) ep_read w"
    "x1 = Inr msg"
    and b: "(x3, w2) = tpl_data_round part_item strmsg w1"
  have "inbox_lt (io_then (ep_write (Str (ascii ''mwrite:verify=addsum''))) ep_read)"
    unfolding io_then_def by (rule inbox_lt_bind2) simp_all
  then have "length (inbox w1) < length (inbox w)"
    using a inbox_ltD[of _ w msg w1] by simp
  moreover have "length (inbox w2) \<le> length (inbox w1)"
    using inbox_leD[OF inbox_le_tpl_data_round, of part_item strmsg w1 x3 w2] b by simp
  ultimately show "((part_item, w2), (part_item, w)) \<in> measure (\<lambda>(part_item, w). length (inbox w))"
    by simp
qed

declare tpl_upload.simps [simp del]

text \<open>
  \<^verbatim>\<open>strmsg = ''
  while strmsg != ADNL_REPLY_OKAY:
      msg = epin.read(USB_READ_LEN, USB_IO_TIMEOUT_MS)
      strmsg = adnl_get_prefix(msg)
      if strmsg == ADNL_REPLY_INFO:
          time.sleep(1)
          continue
      if strmsg != ADNL_REPLY_OKAY:
          raise RuntimeError('CRC error for partition')\<close>
\<close>

function verify_poll :: "unit io" where
  "verify_poll w =
     (case ep_read w of
        (Inl e, w1) \<Rightarrow> (Inl e, w1)
      | (Inr msg, w1) \<Rightarrow>
          (case adnl_get_prefix msg of
             Inl e \<Rightarrow> (Inl e, w1)
           | Inr strmsg \<Rightarrow>
               if strmsg = ADNL_REPLY_INFO then
                 (case sleep 1 w1 of
                    (Inl e, w2) \<Rightarrow> (Inl e, w2)
                  | (Inr _, w2) \<Rightarrow> verify_poll w2)
               else if strmsg \<noteq> ADNL_REPLY_OKAY then
                 (Inl (RuntimeError (ascii ''CRC error for partition'')), w1)
               else (Inr (), w1)))"
  by pat_completeness auto
termination
  by (relation "measure (\<lambda>w. length (inbox w))")
     (auto simp: ep_read_def sleep_def split: list.splits)

declare verify_poll.simps [simp del]

definition tpl_burn_partition :: "nat \<Rightarrow> unit io" where
  "tpl_burn_partition part_item =
     io_bind (item_sub_type part_item) (\<lambda>part_name.
     io_bind (item_size part_item) (\<lambda>sz.
     io_then (send_cmd (Str (ascii ''oem mwrite 0x'' @ fmt_x sz @ ascii '' normal store ''
                              @ part_name)) ADNL_REPLY_OKAY)
    (io_then (tpl_upload part_item)
    (io_bind (item_get (ascii ''VERIFY'') part_name) (\<lambda>verify_item.
     io_bind (item_read_all verify_item) (\<lambda>payload.
     io_bind (io_lift (decode payload)) (\<lambda>text.
     io_then (ep_write (Str (ascii ''oem verify '' @ text)))
     verify_poll)))))))"

definition tpl_send_burnsteps :: "int \<Rightarrow> unit io" where
  "tpl_send_burnsteps second_arg =
     io_then (send_cmd (Str (ascii ''oem setvar burnsteps '' @ py_hex second_arg)) ADNL_REPLY_OKAY)
       (io_return ())"

text \<open>
  \<open>wait_for_device\<close> polls the bus once a second until a device shows up at another
  address. When the script of the bus is used up the device never comes back and the
  loop does not return.
\<close>

function wait_for_device :: "nat \<Rightarrow> nat io" where
  "wait_for_device last_dev_addr w =
     (if bus w = [] then (Inl Diverges, w)
      else (case usb_find w of
              (Inl e, w1) \<Rightarrow> (Inl e, w1)
            | (Inr dev, w1) \<Rightarrow>
                (case (case dev of Device a \<Rightarrow> if a \<noteq> last_dev_addr then Some a else None
                                 | _ \<Rightarrow> None) of
                   Some a \<Rightarrow> (Inr a, w1)
                 | None \<Rightarrow>
                     (case sleep 1 w1 of
                        (Inl e, w2) \<Rightarrow> (Inl e, w2)
                      | (Inr _, w2) \<Rightarrow> wait_for_device last_dev_addr w2))))"
  by pat_completeness auto
termination
  by (relation "measure (\<lambda>(a, w). length (bus w))")
     (auto simp: usb_find_def sleep_def split: list.splits found.splits)

declare wait_for_device.simps [simp del]

text \<open>
  \<^verbatim>\<open>for item in aml_img.items():
      if item.main_type() == 'PARTITION':
          tpl_burn_partition(item, aml_img, epout, epin)\<close>
\<close>

fun burn_partitions :: "nat list \<Rightarrow> unit io" where
  "burn_partitions [] w = (Inr (), w)"
| "burn_partitions (h # hs) w =
     (case io_bind (item_main_type h) (\<lambda>mt.
             if mt = ascii ''PARTITION'' then tpl_burn_partition h else io_return ()) w of
        (Inl e, w1) \<Rightarrow> (Inl e, w1)
      | (Inr _, w1) \<Rightarrow> burn_partitions hs w1)"

definition image_items :: "nat list io" where
  "image_items w = (Inr [0 ..< length (image w)], w)"

definition run_tpl_stage :: "bool \<Rightarrow> int \<Rightarrow> nat \<Rightarrow> unit io" where
  "run_tpl_stage reset erase_code dev_addr_rom_stage =
     io_then (wait_for_device dev_addr_rom_stage)
    (io_then send_cmd_identify
    (io_then (tpl_send_burnsteps TPL_BURNSTEPS_0)
    (io_then (tpl_send_burnsteps TPL_BURNSTEPS_1)
    (io_then (send_cmd (Str (ascii ''oem disk_initial '' @ str_int erase_code)) ADNL_REPLY_OKAY)
    (io_then (tpl_send_burnsteps TPL_BURNSTEPS_2)
    (io_then (io_bind image_items burn_partitions)
    (if reset then io_then (send_cmd (Str (ascii ''reboot'')) ADNL_REPLY_OKAY) (io_return ())
     else io_return ())))))))"

subsection \<open>Orchestrator\<close>

text \<open>
  \<^verbatim>\<open>try:
      dev = usb.core.find(idVendor=AMLOGIC_VENDOR_ID, idProduct=AMLOGIC_PRODUCT_ID, backend=None)
  except usb.core.NoBackendError:
      logging.error('Please install libusb')
      raise
  if dev is None:
      logging.info('Device not found')
      return\<close>
  The bus of the model shows the devices with VID \<open>0x1b8e\<close> and PID \<open>0xc004\<close> only.
\<close>

definition do_adnl_burn :: "bool \<Rightarrow> int \<Rightarrow> unit io" where
  "do_adnl_burn reset erase_code =
     io_bind usb_find (\<lambda>dev.
       case dev of
         NoBackend \<Rightarrow> io_raise NoBackendError
       | NoDevice \<Rightarrow> io_return ()
       | Device address \<Rightarrow>
           io_bind send_cmd_identify (\<lambda>stage.
           io_bind (if stage = TPL then
                      io_then (send_cmd (Str (ascii ''reboot-romusb'')) ADNL_REPLY_OKAY)
                        (wait_for_device address)
                    else if stage \<noteq> ROM then
                      io_raise (RuntimeError (ascii ''Unknown stage: '' @ Stage_name stage))
                    else io_return address) (\<lambda>dev_addr_rom_stage.
           io_bind is_secureboot_enabled (\<lambda>has_secureboot.
           io_then (run_bootrom_stage has_secureboot)
          (io_then (run_bl2_stage has_secureboot)
          (run_tpl_stage reset erase_code dev_addr_rom_stage))))))"

section \<open>Scripted replies\<close>

text \<open>
  The replies a mocked device gives: the bare acknowledgements, the reply to
  \<open>getvar:identify\<close> (protocol byte 5, the stage in byte 7, any other content), and a
  64-byte chip-info page 1 with the SoC family at offset \<open>0x04\<close> and the feature word at
  offset \<open>0x24\<close>.
\<close>

definition okay_bytes :: "byte list" where "okay_bytes = [0x4f, 0x4b, 0x41, 0x59]"
definition data_bytes :: "byte list" where "data_bytes = [0x44, 0x41, 0x54, 0x41]"

fun stage_code :: "Stage \<Rightarrow> byte" where
  "stage_code ROM = 0" | "stage_code SPL = 8" | "stage_code TPL = 16"

definition identify_reply :: "byte \<Rightarrow> byte \<Rightarrow> Stage \<Rightarrow> byte list \<Rightarrow> byte list" where
  "identify_reply minor x st rest = okay_bytes @ [5, minor, x, stage_code st] @ rest"

definition chip_page :: "byte \<Rightarrow> byte \<Rightarrow> byte list" where
  "chip_page family feat =
     replicate 4 0 @ [family, 0, 0, 0] @ replicate 28 0 @ [feat, 0, 0, 0] @ replicate 24 0"

definition info_bytes :: "byte list" where "info_bytes = [0x49, 0x4e, 0x46, 0x4f]"

definition fail_bytes :: "byte list" where "fail_bytes = [0x46, 0x41, 0x49, 0x4c]"

text \<open>What the verification poll makes of a reply whose prefix is not \<open>INFO\<close>.\<close>

definition poll_outcome :: "byte list \<Rightarrow> error + unit" where
  "poll_outcome r =
     (case utf8 (map unat (take 4 r)) of
        None \<Rightarrow> Inl UnicodeDecodeError
      | Some strmsg \<Rightarrow>
          if strmsg = ascii ''OKAY'' then Inr ()
          else Inl (RuntimeError (ascii ''CRC error for partition'')))"

text \<open>The frames written to the bulk-OUT endpoint, in order.\<close>

fun frames :: "event list \<Rightarrow> frame list" where
  "frames [] = []"
| "frames (Write f # es) = f # frames es"
| "frames (e # es) = frames es"

text \<open>The image payloads among the frames: the \<open>bytes\<close> objects written.\<close>

fun payloads :: "event list \<Rightarrow> byte list list" where
  "payloads [] = []"
| "payloads (Write (Bytes p) # es) = p # payloads es"
| "payloads (e # es) = payloads es"

text \<open>
  A control block word as the device sends it: the \<open>OKAY\<close> prefix, the magic \<open>AMLC\<close>, then
  sequence, size and offset as 32-bit little-endian fields, the checksum flag, the end
  flag, and padding up to 32 bytes.
\<close>

definition amlc_bytes :: "byte list" where "amlc_bytes = [0x41, 0x4d, 0x4c, 0x43]"

definition u32_le :: "nat \<Rightarrow> byte list" where
  "u32_le n = [of_nat n, of_nat (n div 256), of_nat (n div 65536), of_nat (n div 16777216)]"

definition cbw_reply :: "nat \<Rightarrow> nat \<Rightarrow> nat \<Rightarrow> byte \<Rightarrow> byte \<Rightarrow> byte list" where
  "cbw_reply seq sz off nc e =
     okay_bytes @ amlc_bytes @ u32_le seq @ u32_le sz @ u32_le off @ [nc, e] @ replicate 10 0"

text \<open>
  The script of the SPL stage for a list of requests with \<open>end = 0\<close>, each with its
  sequence number, size, offset and checksum flag: after each CBW the device acknowledges
  every \<open>download:\<close> frame with \<open>DATA\<close> and every chunk with \<open>OKAY\<close>, then
  \<open>setvar:checksum\<close> with \<open>DATA\<close> and the checksum with \<open>OKAY\<close>.
\<close>

record request =
  req_seq :: nat
  req_size :: nat
  req_offs :: nat
  req_flag :: byte

definition request_cbw :: "request \<Rightarrow> byte list" where
  "request_cbw c = cbw_reply (req_seq c) (req_size c) (req_offs c) (req_flag c) 0"

text \<open>
  A request the device may make of an image of \<open>n\<close> bytes: the window lies inside the
  image and every field fits 32 bits.
\<close>

definition request_ok :: "nat \<Rightarrow> request \<Rightarrow> bool" where
  "request_ok n c =
     (req_offs c + req_size c \<le> n \<and> req_seq c < 2 ^ 32 \<and> req_size c < 2 ^ 32
      \<and> req_offs c < 2 ^ 32)"

definition chunk_acks :: "nat \<Rightarrow> byte list list" where
  "chunk_acks sz =
     concat (replicate ((sz + USB_BULK_SIZE - 1) div USB_BULK_SIZE) [data_bytes, okay_bytes])"

definition transfer_script :: "request \<Rightarrow> byte list list" where
  "transfer_script c = request_cbw c # chunk_acks (req_size c) @ [data_bytes, okay_bytes]"

definition cbw_script :: "request list \<Rightarrow> byte list list" where
  "cbw_script cs = concat (map transfer_script cs)"

text \<open>
  What the specification expects on the wire for one request: the image window
  \<open>[offset, offset + size)\<close> cut into chunks of at most \<open>n\<close> bytes, each chunk after a
  \<open>download:<chunk_len:08x>\<close> exchange, then the checksum exchange.
\<close>

function chunks_of :: "nat \<Rightarrow> 'a list \<Rightarrow> 'a list list" where
  "chunks_of n xs = (if n = 0 \<or> xs = [] then [] else take n xs # chunks_of n (drop n xs))"
  by pat_completeness auto
termination
  by (relation "measure (\<lambda>(n, xs). length xs)") auto

declare chunks_of.simps [simp del]

definition chunk_events :: "byte list \<Rightarrow> event list" where
  "chunk_events c =
     [Write (Str (ascii ''download:'' @ fmt_08x (int (length c)))), Read data_bytes,
      Write (Bytes c), Read okay_bytes]"

definition transfer_events :: "byte list \<Rightarrow> request \<Rightarrow> event list" where
  "transfer_events d c =
     (let chunks = chunks_of USB_BULK_SIZE (slice d (req_offs c) (req_offs c + req_size c)) in
      [Write (Str (ascii ''getvar:cbw'')), Read (request_cbw c)]
        @ concat (map chunk_events chunks)
        @ [Write (Str (ascii ''setvar:checksum'')), Read data_bytes,
           Write (Ints (bytes_sum (sum_list (map adnl_checksum chunks)))), Read okay_bytes])"

text \<open>A message names a text when the text occurs in it.\<close>

fun contains :: "pystr \<Rightarrow> pystr \<Rightarrow> bool" where
  "contains [] s = (s = [])"
| "contains (c # cs) s = (take (length s) (c # cs) = s \<or> contains cs s)"

section \<open>Verification: the addsum checksum\<close>

lemma slice_drop4: "slice buf (k + 4) (k + 4 + 4) = slice (drop 4 buf) k (k + 4)"
  by (simp add: slice_def add.commute)

lemma range4_step:
  "0 < n \<Longrightarrow> py_range n 4 = 0 # map (\<lambda>i. i + 4) (py_range (n - 4) 4)"
proof -
  assume n: "0 < n"
  have e: "(n + 4 - 1) div 4 = Suc ((n - 4 + 4 - 1) div 4)" using n by (cases "n < 4") auto
  show ?thesis
    unfolding py_range_def e upt_rec[of 0 "Suc _"]
    by (simp add: map_Suc_upt[symmetric] del: upt_Suc)
qed

lemma from_bytes_le_zeros: "from_bytes_le (bs @ replicate n 0) = from_bytes_le bs"
  by (induction bs) (induction n, auto)

lemma from_bytes_le_replicate0: "from_bytes_le (replicate n 0) = 0"
  by (induction n) auto

lemma from_bytes_le_ljust0: "from_bytes_le (ljust0 bs n) = from_bytes_le bs"
  by (simp add: ljust0_def from_bytes_le_zeros)

lemma adnl_sum_words:
  "sum_list (map (\<lambda>i. from_bytes_le (slice buf i (i + 4))) (py_range (length buf) 4))
     = sum_list (words_le buf)"
proof (induction buf rule: words_le.induct)
  case 1
  show ?case by (simp add: py_range_def)
next
  case (2 b bs)
  have "py_range (length (b # bs)) 4 = 0 # map (\<lambda>i. i + 4) (py_range (length (drop 3 bs)) 4)"
    using range4_step[of "length (b # bs)"] by simp
  moreover have "\<And>i. slice (b # bs) (i + 4) (i + 4 + 4) = slice (drop 3 bs) i (i + 4)"
    using slice_drop4[of "b # bs"] by simp
  ultimately show ?case using 2
    by (simp add: comp_def from_bytes_le_ljust0 slice_def)
qed

lemma mask32: "(x::int) AND 0xffffffff = x mod 2 ^ 32"
proof -
  have "x AND mask 32 = x mod 2 ^ 32"
    by (simp only: take_bit_eq_mask[symmetric] take_bit_eq_mod)
  then show ?thesis by (simp add: mask_eq_exp_minus_1)
qed

lemma adnl_checksum_addsum: "adnl_checksum buf = addsum buf"
  by (simp add: adnl_checksum_def addsum_def adnl_sum_words mask32)

lemma words_le_append:
  "length B1 mod 4 = 0 \<Longrightarrow> words_le (B1 @ B2) = words_le B1 @ words_le B2"
proof (induction B1 rule: words_le.induct)
  case 1
  show ?case by simp
next
  case (2 b bs)
  from 2(2) have len: "3 \<le> length bs" by (cases "length bs < 3") auto
  then have m: "length (drop 3 bs) mod 4 = 0" using 2(2)
    by (simp add: mod_Suc split: if_splits) presburger
  show ?case using 2(1)[OF m] len by simp
qed

text \<open>
  Claim C3. Appending one zero byte to a buffer whose length is a multiple of four leaves
  \<open>adnl_checksum\<close> unchanged, and the checksum of a concatenation whose first part has a
  length that is a multiple of four is the sum of the two checksums modulo \<open>2^32\<close>.
\<close>

theorem addsum_law:
  "(length B mod 4 = 0 \<longrightarrow> adnl_checksum (B @ [0]) = adnl_checksum B) \<and>
   (length B1 mod 4 = 0 \<longrightarrow>
      adnl_checksum (B1 @ B2) = (adnl_checksum B1 + adnl_checksum B2) mod 2 ^ 32)"
  by (simp add: adnl_checksum_addsum addsum_def words_le_append ljust0_def
      from_bytes_le_replicate0 mod_simps)

theorem addsum_law_witness:
  "length [1, 2, 3, 4 :: byte] mod 4 = 0 \<and>
   adnl_checksum ([1, 2, 3, 4] @ [0]) = adnl_checksum [1, 2, 3, 4] \<and>
   adnl_checksum [1, 2, 3, 4] = 0x04030201 \<and>
   length [255, 255, 255, 255 :: byte] mod 4 = 0 \<and>
   adnl_checksum ([255, 255, 255, 255] @ [2, 1]) =
     (adnl_checksum [255, 255, 255, 255] + adnl_checksum [2, 1]) mod 2 ^ 32 \<and>
   adnl_checksum ([255, 255, 255, 255] @ [2, 1]) = 0x101"
  using addsum_law [of "[1, 2, 3, 4]" "[255, 255, 255, 255]" "[2, 1]"]
  by (simp add: adnl_checksum_addsum addsum_def ljust0_def from_bytes_le_replicate0)


lemma from_bytes_le_nonneg: "0 \<le> from_bytes_le bs"
  by (induction bs) auto

lemma from_bytes_le_bound: "from_bytes_le bs < 2 ^ (8 * length bs)"
proof (induction bs)
  case Nil
  show ?case by simp
next
  case (Cons b bs)
  have "uint b < 256" using uint_bounded[of b] by simp
  then have "uint b + 256 * from_bytes_le bs < 256 * (from_bytes_le bs + 1)" by simp
  also have "\<dots> \<le> 256 * 2 ^ (8 * length bs)" using Cons by simp
  finally show ?case by (simp add: power_add)
qed

lemma mask24: "0 \<le> x \<Longrightarrow> x < 2 ^ 24 \<Longrightarrow> (x::int) AND 0xffffff = x"
proof -
  assume a: "0 \<le> x" "x < 2 ^ 24"
  have "x AND mask 24 = x mod 2 ^ 24"
    by (simp only: take_bit_eq_mask[symmetric] take_bit_eq_mod)
  then show ?thesis using a by (simp add: mask_eq_exp_minus_1)
qed

lemma amls_val_word:
  assumes "offset < length data"
  shows "amls_val data offset =
     (if length data - offset = 1 then Inl TypeError
      else Inr (from_bytes_le (ljust0 (take 4 (drop offset data)) 4)))"
proof -
  let ?w = "take 4 (drop offset data)"
  have b3: "length data - offset = 3 \<Longrightarrow> from_bytes_le ?w AND 0xffffff = from_bytes_le ?w"
    using from_bytes_le_bound[of ?w] by (intro mask24) (simp_all add: from_bytes_le_nonneg)
  show ?thesis using assms b3
    by (auto simp: amls_val_def Let_def unpack_le_def slice_def ljust0_def
        from_bytes_le_zeros from_bytes_le_ljust0 min_def)
qed

lemma words_le_unfold:
  "xs \<noteq> [] \<Longrightarrow> words_le xs = from_bytes_le (ljust0 (take 4 xs) 4) # words_le (drop 4 xs)"
  by (cases xs) simp_all

lemma amls_loop_words:
  "0 \<le> c \<Longrightarrow> c < 2 ^ 32 \<Longrightarrow>
   amls_loop data offset c =
     (if length (drop offset data) mod 4 = 1 then Inl TypeError
      else Inr ((c + sum_list (words_le (drop offset data))) mod 2 ^ 32))"
proof (induction data offset c rule: amls_loop.induct)
  case (1 data offset checksum)
  show ?case
  proof (cases "offset < length data")
    case False
    then show ?thesis using 1(2,3) by (subst amls_loop.simps) simp
  next
    case True
    let ?w = "from_bytes_le (ljust0 (take 4 (drop offset data)) 4)"
    let ?c = "(checksum + \<bar>?w\<bar>) mod uint32_max"
    have w0: "0 \<le> ?w" by (rule from_bytes_le_nonneg)
    have c: "0 \<le> ?c" "?c < 2 ^ 32" by (simp_all add: uint32_max_def)
    have ne: "drop offset data \<noteq> []" using True by simp
    show ?thesis
    proof (cases "length data - offset = 1")
      case one: True
      then have "amls_val data offset = Inl TypeError" using True by (simp add: amls_val_word)
      then show ?thesis using True one by (subst amls_loop.simps) simp
    next
      case more: False
      then have v: "amls_val data offset = Inr ?w" using True by (simp add: amls_val_word)
      have m: "(length (drop (offset + 4) data) mod 4 = 1) = (length (drop offset data) mod 4 = 1)"
        using more True by (cases "length data - offset < 4") (auto simp: mod_if)
      have ih: "amls_loop data (offset + 4) ?c =
        (if length (drop (offset + 4) data) mod 4 = 1 then Inl TypeError
         else Inr ((?c + sum_list (words_le (drop (offset + 4) data))) mod 2 ^ 32))"
        using 1(1)[OF True v c] .
      have d: "drop 4 (drop offset data) = drop (offset + 4) data" by (simp add: add.commute)
      have "amls_loop data offset checksum = amls_loop data (offset + 4) ?c"
        using True v by (subst amls_loop.simps) simp
      then show ?thesis using ih m w0
        by (simp add: words_le_unfold[OF ne] uint32_max_def mod_simps add.assoc add.commute[of 4 offset])
    qed
  qed
qed

lemma amlsChecksum_cases:
  "amlsChecksum B = (if length B mod 4 = 1 then Inl TypeError else Inr (addsum B))"
  by (simp add: amlsChecksum_def amls_loop_words addsum_def)

text \<open>
  Claim C9. The legacy \<open>_amlsChecksum\<close> and the ADNL \<open>adnl_checksum\<close> should both compute the
  reference addsum on every buffer. On a buffer whose length is 1 modulo 4 the legacy
  function raises \<open>TypeError\<close> in its single-byte branch, while \<open>adnl_checksum\<close> returns
  the reference value.
\<close>

theorem amlsChecksum_single_byte_tail:
  "amlsChecksum [0x2a] = Inl TypeError \<and> adnl_checksum [0x2a] = 0x2a \<and> addsum [0x2a] = 0x2a \<and>
   amlsChecksum [1, 2, 3, 4, 5] = Inl TypeError \<and> adnl_checksum [1, 2, 3, 4, 5] = 0x04030206"
  by (simp add: amlsChecksum_cases adnl_checksum_addsum addsum_def ljust0_def from_bytes_le_replicate0)

section \<open>Verification: large memory writes\<close>

lemma priv_misaligned:
  "blockLength \<noteq> 0 \<Longrightarrow> length d mod blockLength \<noteq> 0 \<Longrightarrow>
   priv_writeLargeMemory a d blockLength False log =
     (Inl (ValueError (ascii ''Large Data must be a multiple of block length'')), log)"
  by (simp add: priv_writeLargeMemory_def)

text \<open>
  Without \<open>appendZeros\<close>, a misaligned buffer that fits one super-transfer is refused
  before any transfer.
\<close>

lemma writeLargeMemory_misaligned_single:
  assumes "length data mod blockLength \<noteq> 0" "length data \<le> MAX_LARGE_BLOCK_COUNT * blockLength"
    and "0 < blockLength"
  shows "writeLargeMemory address data blockLength False log =
     (Inl (ValueError (ascii ''Large Data must be a multiple of block length'')), log)"
proof -
  have bl: "blockLength \<noteq> 0" using assms(3) by simp
  let ?bc = "length data div blockLength + 1"
  have "length data div blockLength < MAX_LARGE_BLOCK_COUNT"
  proof (rule ccontr)
    assume "\<not> ?thesis"
    then have "MAX_LARGE_BLOCK_COUNT * blockLength \<le> (length data div blockLength) * blockLength"
      by simp
    also have "\<dots> < length data" using assms(1) bl
      by (metis div_mult_mod_eq less_add_same_cancel1 neq0_conv)
    finally show False using assms(2) by simp
  qed
  then have le: "?bc \<le> MAX_LARGE_BLOCK_COUNT" by simp
  have tc: "?bc div MAX_LARGE_BLOCK_COUNT + (if ?bc mod MAX_LARGE_BLOCK_COUNT > 0 then 1 else 0) = Suc 0"
    using le by (cases "?bc = MAX_LARGE_BLOCK_COUNT") (auto simp: MAX_LARGE_BLOCK_COUNT_def)
  have sl: "slice data 0 (length data) = data" by (simp add: slice_def)
  have ne: "length data \<noteq> MAX_LARGE_BLOCK_COUNT * blockLength" using assms(1) by auto
  show ?thesis using assms bl tc ne
    by (simp add: writeLargeMemory_def Let_def priv_misaligned sl)
qed

lemma write_blocks_length: "length (write_blocks data bl off n log) = length log + n"
  by (induction n arbitrary: off log) auto

text \<open>
  A misaligned buffer longer than one super-transfer is refused only at its last
  sub-transfer: the control transfer and the 65535 blocks of the first one are on the wire.
\<close>

lemma writeLargeMemory_misaligned_late:
  "\<exists>log. writeLargeMemory 0 (replicate 131071 0) 2 False [] =
     (Inl (ValueError (ascii ''Large Data must be a multiple of block length'')), log)
     \<and> length log = 65536"
proof -
  let ?d = "replicate 131071 (0::byte)"
  let ?L = "write_blocks (replicate 131070 0) 2 0 65535
              [Ctrl REQ_WR_LARGE_MEM 2 65535 [0,0,0,0, 0xfe,0xff,1,0, 0,0,0,0, 0,0,0,0]]"
  have p: "pack_IIII 0 131070 0 0 = Inr [0,0,0,0, 0xfe,0xff,1,0, 0,0,0,0, 0,0,0,0]"
    by (simp add: pack_IIII_def to_bytes4_def upt_rec)
  have A: "priv_writeLargeMemory 0 (slice ?d 0 131070) 2 False [] = (Inr (), ?L)"
    by (simp add: priv_writeLargeMemory_def slice_def p)
  have B: "priv_writeLargeMemory 131070 (slice ?d 131070 131071) 2 False ?L =
             (Inl (ValueError (ascii ''Large Data must be a multiple of block length'')), ?L)"
    by (simp add: priv_writeLargeMemory_def slice_def)
  have tc: "writeLargeMemory 0 ?d 2 False [] = writeLargeMemory_loop 0 ?d 2 False (Suc (Suc 0)) 0 []"
    by (simp add: writeLargeMemory_def MAX_LARGE_BLOCK_COUNT_def Let_def)
  have "writeLargeMemory_loop 0 ?d 2 False (Suc (Suc 0)) 0 [] =
          writeLargeMemory_loop 0 ?d 2 False (Suc 0) 131070 ?L"
    using A by (simp add: MAX_LARGE_BLOCK_COUNT_def)
  also have "\<dots> = (Inl (ValueError (ascii ''Large Data must be a multiple of block length'')), ?L)"
    using B by (simp add: MAX_LARGE_BLOCK_COUNT_def)
  finally show ?thesis using tc by (simp add: write_blocks_length)
qed

text \<open>
  Claim C8. A buffer whose length is not a multiple of the block length should, with
  \<open>appendZeros\<close>, be zero-padded to the next multiple and leave in blocks of exactly
  \<open>blockLength\<close> bytes. The code appends \<open>len(data) % blockLength\<close> zero bytes: five bytes
  with a block length of four become six, announced as two blocks and sent as a block of
  four bytes and a block of two.
\<close>

theorem writeLargeMemory_appendZeros_short_pad:
  "writeLargeMemory 0 [1, 2, 3, 4, 5] 4 True [] =
     (Inr (), [Ctrl 0x11 4 2 [0, 0, 0, 0, 6, 0, 0, 0, 0, 0, 0, 0, 0, 0, 0, 0],
               Bulk [1, 2, 3, 4], Bulk [5, 0]])"
  by (simp add: writeLargeMemory_def MAX_LARGE_BLOCK_COUNT_def priv_writeLargeMemory_def
      pack_IIII_def to_bytes4_def upt_rec slice_def REQ_WR_LARGE_MEM_def Let_def)

section \<open>Verification: running the driver against a script\<close>

lemmas io_defs = io_bind_def io_then_def io_return_def io_raise_def io_lift_def

lemma ep_write_eval [simp]:
  "ep_write cmd \<lparr>trace = t, inbox = rs, bus = b, image = im\<rparr> =
     (Inr (), \<lparr>trace = t @ [Write cmd], inbox = rs, bus = b, image = im\<rparr>)"
  by (simp add: ep_write_def)

lemma ep_read_eval [simp]:
  "ep_read \<lparr>trace = t, inbox = r # rs, bus = b, image = im\<rparr> =
     (Inr r, \<lparr>trace = t @ [Read r], inbox = rs, bus = b, image = im\<rparr>)"
  "ep_read \<lparr>trace = t, inbox = [], bus = b, image = im\<rparr> =
     (Inl USBTimeoutError, \<lparr>trace = t, inbox = [], bus = b, image = im\<rparr>)"
  by (simp_all add: ep_read_def)

lemma sleep_eval [simp]:
  "sleep n \<lparr>trace = t, inbox = rs, bus = b, image = im\<rparr> =
     (Inr (), \<lparr>trace = t @ [Sleep n], inbox = rs, bus = b, image = im\<rparr>)"
  by (simp add: sleep_def)

lemma send_cmd_eval:
  "send_cmd cmd expected_res \<lparr>trace = t, inbox = r # rs, bus = b, image = im\<rparr> =
     (if length r < 4 then
        Inl (RuntimeError (ascii ''Too short reply: '' @ str_int (int (length r))))
      else (case decode (take 4 r) of
              Inl e \<Rightarrow> Inl e
            | Inr header \<Rightarrow>
                if header \<noteq> expected_res then
                  Inl (RuntimeError (ascii ''Unexpected reply:'' @ header
                                     @ ascii '' to cmd:'' @ format_frame cmd))
                else Inr r),
      \<lparr>trace = t @ [Write cmd, Read r], inbox = rs, bus = b, image = im\<rparr>)"
  by (simp add: send_cmd_def io_defs adnl_get_prefix_def slice_def split: sum.splits)

lemma send_cmd_accept:
  "4 \<le> length r \<Longrightarrow> decode (take 4 r) = Inr expected_res \<Longrightarrow>
   send_cmd cmd expected_res \<lparr>trace = t, inbox = r # rs, bus = b, image = im\<rparr> =
     (Inr r, \<lparr>trace = t @ [Write cmd, Read r], inbox = rs, bus = b, image = im\<rparr>)"
  by (simp add: send_cmd_eval)

lemma utf8_ascii: "list_all (\<lambda>c. c < 128) cs \<Longrightarrow> utf8 cs = Some cs"
  by (induction cs) auto

lemma utf8_multibyte_head:
  assumes "utf8 (a # bs) = Some cs" "\<not> a < 128"
  shows "\<exists>c r. cs = c # r \<and> 128 \<le> c"
proof -
  consider (two) "194 \<le> a \<and> a < 224" | (three) "224 \<le> a \<and> a < 240"
    | (four) "240 \<le> a \<and> a < 245" | (bad) "a < 194 \<or> 245 \<le> a"
    by linarith
  then show ?thesis
  proof cases
    case two
    then obtain b r where bs: "bs = b # r" and c: "cont b"
      using assms by (cases bs) (auto split: if_splits)
    then obtain r' where "cs = ((a - 192) * 64 + (b - 128)) # r'"
      using assms two by auto
    moreover have "128 \<le> (a - 192) * 64 + (b - 128)"
    proof -
      have "2 \<le> a - 192" using two by arith
      then have "128 \<le> (a - 192) * 64" by simp
      then show ?thesis by simp
    qed
    ultimately show ?thesis by blast
  next
    case three
    then obtain b c r where bs: "bs = b # c # r"
      using assms by (cases bs; cases "tl bs") (auto split: if_splits)
    have ok: "cont b" "a = 224 \<Longrightarrow> 160 \<le> b"
      using assms three bs by (auto split: if_splits)
    obtain r' where "cs = ((a - 224) * 4096 + (b - 128) * 64 + (c - 128)) # r'"
      using assms three bs by (auto split: if_splits)
    moreover have "128 \<le> (a - 224) * 4096 + (b - 128) * 64 + (c - 128)"
    proof (cases "a = 224")
      case True
      then have "32 \<le> b - 128" using ok by arith
      then have "2048 \<le> (b - 128) * 64" by simp
      then show ?thesis by simp
    next
      case False
      then have "1 \<le> a - 224" using three by arith
      then have "4096 \<le> (a - 224) * 4096" by simp
      then show ?thesis by simp
    qed
    ultimately show ?thesis by blast
  next
    case four
    then obtain b c d r where bs: "bs = b # c # d # r"
      using assms by (cases bs; cases "tl bs"; cases "tl (tl bs)") (auto split: if_splits)
    have ok: "cont b" "a = 240 \<Longrightarrow> 144 \<le> b"
      using assms four bs by (auto split: if_splits)
    obtain r' where
      "cs = ((a - 240) * 262144 + (b - 128) * 4096 + (c - 128) * 64 + (d - 128)) # r'"
      using assms four bs by (auto split: if_splits)
    moreover have "128 \<le> (a - 240) * 262144 + (b - 128) * 4096 + (c - 128) * 64 + (d - 128)"
    proof (cases "a = 240")
      case True
      then have "16 \<le> b - 128" using ok by arith
      then have "65536 \<le> (b - 128) * 4096" by simp
      then show ?thesis by simp
    next
      case False
      then have "1 \<le> a - 240" using four by arith
      then have "262144 \<le> (a - 240) * 262144" by simp
      then show ?thesis by simp
    qed
    ultimately show ?thesis by blast
  next
    case bad
    then show ?thesis using assms by auto
  qed
qed

lemma utf8_ascii_result:
  "utf8 bs = Some cs \<Longrightarrow> list_all (\<lambda>c. c < 128) cs \<Longrightarrow> bs = cs"
proof (induction bs arbitrary: cs)
  case Nil
  then show ?case by simp
next
  case (Cons a bs)
  show ?case
  proof (cases "a < 128")
    case True
    then show ?thesis using Cons by auto
  next
    case False
    then show ?thesis using utf8_multibyte_head[OF Cons(2) False] Cons(3) by auto
  qed
qed

lemma decode_ascii_iff:
  "list_all (\<lambda>c. c < 128) P \<Longrightarrow> (decode bs = Inr P) = (map unat bs = P)"
  by (auto simp: decode_def utf8_ascii split: option.splits dest: utf8_ascii_result)

lemma usb_find_eval [simp]:
  "usb_find \<lparr>trace = t, inbox = rs, bus = [], image = im\<rparr> =
     (Inr NoDevice, \<lparr>trace = t @ [Find NoDevice], inbox = rs, bus = [], image = im\<rparr>)"
  "usb_find \<lparr>trace = t, inbox = rs, bus = NoDevice # b, image = im\<rparr> =
     (Inr NoDevice, \<lparr>trace = t @ [Find NoDevice], inbox = rs, bus = b, image = im\<rparr>)"
  "usb_find \<lparr>trace = t, inbox = rs, bus = NoBackend # b, image = im\<rparr> =
     (Inl NoBackendError, \<lparr>trace = t @ [Find NoBackend], inbox = rs, bus = b, image = im\<rparr>)"
  "usb_find \<lparr>trace = t, inbox = rs, bus = Device a # b, image = im\<rparr> =
     (Inr (Device a), \<lparr>trace = t @ [Find (Device a)], inbox = rs, bus = b, image = im\<rparr>)"
  by (simp_all add: usb_find_def)

text \<open>
  Claim C5, as amended. When \<open>usb.core.find\<close> reports no device, \<open>do_adnl_burn\<close> returns
  normally after that one poll of the bus, without any USB traffic; it raises only when
  no libusb backend is available, re-raising \<open>NoBackendError\<close>.
\<close>

theorem do_adnl_burn_without_device:
  "(dev = NoDevice \<longrightarrow>
      do_adnl_burn reset erase_code \<lparr>trace = t, inbox = rs, bus = dev # b, image = im\<rparr> =
        (Inr (), \<lparr>trace = t @ [Find NoDevice], inbox = rs, bus = b, image = im\<rparr>)) \<and>
   (dev = NoBackend \<longrightarrow>
      do_adnl_burn reset erase_code \<lparr>trace = t, inbox = rs, bus = dev # b, image = im\<rparr> =
        (Inl NoBackendError, \<lparr>trace = t @ [Find NoBackend], inbox = rs, bus = b, image = im\<rparr>))"
  by (simp add: do_adnl_burn_def io_defs)

theorem do_adnl_burn_without_device_witness:
  "do_adnl_burn True 0 \<lparr>trace = [], inbox = [], bus = [NoDevice], image = []\<rparr> =
     (Inr (), \<lparr>trace = [Find NoDevice], inbox = [], bus = [], image = []\<rparr>) \<and>
   do_adnl_burn True 0 \<lparr>trace = [], inbox = [], bus = [NoBackend], image = []\<rparr> =
     (Inl NoBackendError, \<lparr>trace = [Find NoBackend], inbox = [], bus = [], image = []\<rparr>)"
  using do_adnl_burn_without_device [of NoDevice True 0 "[]" "[]" "[]" "[]"]
    do_adnl_burn_without_device [of NoBackend True 0 "[]" "[]" "[]" "[]"]
  by simp

text \<open>
  Claim C5 as stated fails: with no device on the bus \<open>do_adnl_burn\<close> raises nothing.
\<close>

theorem do_adnl_burn_returns_without_device:
  "\<not> (\<exists>e w. do_adnl_burn False 0 \<lparr>trace = [], inbox = [], bus = [NoDevice], image = []\<rparr> = (Inl e, w))"
  by (simp add: do_adnl_burn_def io_defs)

text \<open>
  Claim C2, as amended. For every command and every expected prefix \<open>P\<close> of four ASCII
  characters, \<open>send_cmd\<close> writes the command, reads one reply, and returns the raw reply
  iff it has at least four bytes and begins with \<open>P\<close>. A shorter reply raises
  \<open>RuntimeError('Too short reply: n')\<close>. A reply with another prefix raises
  \<open>RuntimeError\<close> whose message is built from the received prefix and the command (the
  expected prefix is not part of it), or \<open>UnicodeDecodeError\<close> when its first four bytes
  are not valid UTF-8.
\<close>

theorem send_cmd_prefix_dispatch:
  assumes "length P = 4" "list_all (\<lambda>c. c < 128) P"
  shows "send_cmd cmd P \<lparr>trace = t, inbox = r # rs, bus = b, image = im\<rparr> =
     (if length r < 4 then
        Inl (RuntimeError (ascii ''Too short reply: '' @ str_int (int (length r))))
      else if map unat (take 4 r) = P then Inr r
      else (case utf8 (map unat (take 4 r)) of
              None \<Rightarrow> Inl UnicodeDecodeError
            | Some header \<Rightarrow>
                Inl (RuntimeError (ascii ''Unexpected reply:'' @ header
                                   @ ascii '' to cmd:'' @ format_frame cmd))),
      \<lparr>trace = t @ [Write cmd, Read r], inbox = rs, bus = b, image = im\<rparr>)
   \<and> ((fst (send_cmd cmd P \<lparr>trace = t, inbox = r # rs, bus = b, image = im\<rparr>) = Inr r)
        = (4 \<le> length r \<and> map unat (take 4 r) = P))"
proof -
  have d: "(decode (take 4 r) = Inr P) = (map unat (take 4 r) = P)"
    using assms(2) by (rule decode_ascii_iff)
  show ?thesis
  proof (cases "map unat (take 4 r) = P")
    case True
    then have "decode (take 4 r) = Inr P" using d by simp
    moreover have "4 \<le> length r" using True assms(1) by (metis length_map length_take min.cobounded1)
    ultimately show ?thesis using True by (simp add: send_cmd_eval)
  next
    case False
    then have "decode (take 4 r) \<noteq> Inr P" using d by simp
    then show ?thesis using False
      by (auto simp: send_cmd_eval decode_def split: option.splits)
  qed
qed

lemma digits_small [simp]: "n < b \<Longrightarrow> digits b n = [digit_char n]"
  by (subst digits.simps) simp

theorem send_cmd_prefix_dispatch_witness:
  "length (ascii ''OKAY'') = 4 \<and> list_all (\<lambda>c. c < 128) (ascii ''OKAY'') \<and>
   send_cmd (Str (ascii ''boot'')) (ascii ''OKAY'')
       \<lparr>trace = [], inbox = [[0x4f, 0x4b, 0x41, 0x59, 1, 2]], bus = [], image = []\<rparr> =
     (Inr [0x4f, 0x4b, 0x41, 0x59, 1, 2],
      \<lparr>trace = [Write (Str (ascii ''boot'')), Read [0x4f, 0x4b, 0x41, 0x59, 1, 2]],
         inbox = [], bus = [], image = []\<rparr>) \<and>
   fst (send_cmd (Str (ascii ''boot'')) (ascii ''OKAY'')
       \<lparr>trace = [], inbox = [[0x44, 0x41, 0x54, 0x41]], bus = [], image = []\<rparr>) =
     Inl (RuntimeError (ascii ''Unexpected reply:DATA to cmd:boot'')) \<and>
   fst (send_cmd (Str (ascii ''boot'')) (ascii ''OKAY'')
       \<lparr>trace = [], inbox = [[0x4f, 0x4b]], bus = [], image = []\<rparr>) =
     Inl (RuntimeError (ascii ''Too short reply: 2''))"
  using send_cmd_prefix_dispatch [of "ascii ''OKAY''" "Str (ascii ''boot'')" "[]"
          "[0x4f, 0x4b, 0x41, 0x59, 1, 2]" "[]" "[]" "[]"]
        send_cmd_prefix_dispatch [of "ascii ''OKAY''" "Str (ascii ''boot'')" "[]"
          "[0x44, 0x41, 0x54, 0x41]" "[]" "[]" "[]"]
        send_cmd_prefix_dispatch [of "ascii ''OKAY''" "Str (ascii ''boot'')" "[]"
          "[0x4f, 0x4b]" "[]" "[]" "[]"]
  by (simp add: ascii_def str_int_def digit_char_def)

text \<open>
  Claim C2 as stated fails: the error for a \<open>FAIL\<close> reply where \<open>OKAY\<close> was expected does
  not name \<open>OKAY\<close>, and a reply that is not UTF-8 raises a decoding error instead.
\<close>

theorem send_cmd_error_omits_expected:
  "fst (send_cmd (Str (ascii ''boot'')) (ascii ''OKAY'')
       \<lparr>trace = [], inbox = [[0x46, 0x41, 0x49, 0x4c]], bus = [], image = []\<rparr>) =
     Inl (RuntimeError (ascii ''Unexpected reply:FAIL to cmd:boot'')) \<and>
   \<not> contains (ascii ''Unexpected reply:FAIL to cmd:boot'') (ascii ''OKAY'') \<and>
   fst (send_cmd (Str (ascii ''boot'')) (ascii ''OKAY'')
       \<lparr>trace = [], inbox = [[0xff, 0xff, 0xff, 0xff]], bus = [], image = []\<rparr>) =
     Inl UnicodeDecodeError"
  by (simp add: send_cmd_eval decode_def ascii_def)

lemma decode_okay [simp]: "decode okay_bytes = Inr ADNL_REPLY_OKAY"
  by (simp add: decode_def okay_bytes_def ADNL_REPLY_OKAY_def ascii_def)

lemma decode_data [simp]: "decode data_bytes = Inr ADNL_REPLY_DATA"
  by (simp add: decode_def data_bytes_def ADNL_REPLY_DATA_def ascii_def)

lemma okay_bytes_simps [simp]:
  "length okay_bytes = 4" "take 4 okay_bytes = okay_bytes" "drop 4 okay_bytes = []"
  by (simp_all add: okay_bytes_def)

lemma data_bytes_simps [simp]:
  "length data_bytes = 4" "take 4 data_bytes = data_bytes" "drop 4 data_bytes = []"
  by (simp_all add: data_bytes_def)

lemma send_cmd_okay [simp]:
  "send_cmd cmd ADNL_REPLY_OKAY \<lparr>trace = t, inbox = (okay_bytes @ xs) # rs, bus = b, image = im\<rparr> =
     (Inr (okay_bytes @ xs),
      \<lparr>trace = t @ [Write cmd, Read (okay_bytes @ xs)], inbox = rs, bus = b, image = im\<rparr>)"
  by (simp add: send_cmd_eval)

lemma send_cmd_data [simp]:
  "send_cmd cmd ADNL_REPLY_DATA \<lparr>trace = t, inbox = (data_bytes @ xs) # rs, bus = b, image = im\<rparr> =
     (Inr (data_bytes @ xs),
      \<lparr>trace = t @ [Write cmd, Read (data_bytes @ xs)], inbox = rs, bus = b, image = im\<rparr>)"
  by (simp add: send_cmd_eval)

lemma send_cmd_identify_eval [simp]:
  "send_cmd_identify
       \<lparr>trace = t, inbox = identify_reply minor x st rest # rs, bus = b, image = im\<rparr> =
     (Inr st, \<lparr>trace = t @ [Write (Str (ascii ''getvar:identify'')),
                              Read (identify_reply minor x st rest)],
               inbox = rs, bus = b, image = im\<rparr>)"
proof -
  have i: "index (identify_reply minor x st rest) 4 = Inr 5"
    "index (identify_reply minor x st rest) 7 = Inr (stage_code st)"
    by (simp_all add: identify_reply_def okay_bytes_def index_def)
  have s: "Stage_of (uint (stage_code st)) = Inr st"
    by (cases st) (simp_all add: Stage_of_def)
  show ?thesis
    unfolding send_cmd_identify_def identify_reply_def
    using i s by (simp add: io_defs identify_reply_def)
qed

text \<open>
  Claim C10. Once the device has identified itself in ROM or SPL and answered the page
  query, \<open>get_chipinfo\<close> raises its out-of-bound error iff \<open>offset > 0\<close> and
  \<open>offset + nbytes\<close> reaches the length of the payload after the header. With
  \<open>offset = 0\<close> nothing is checked and an oversized request returns the truncated slice;
  with \<open>offset > 0\<close> a request that ends exactly at the end of the payload raises.
\<close>

theorem get_chipinfo_bound_check:
  assumes "st = ROM \<or> st = SPL" "0 \<le> page" "page \<le> 7"
  shows
   "get_chipinfo page (Some offset) (Some nbytes)
       \<lparr>trace = t, inbox = identify_reply minor x st rest # (okay_bytes @ payload) # rs,
          bus = b, image = im\<rparr> =
     (if offset > 0 \<and> offset + nbytes \<ge> int (length payload)
      then Inl (RuntimeError (ascii ''Bad parameters: out of bound access''))
      else Inr (py_slice payload offset (offset + nbytes)),
      \<lparr>trace = t @ [Write (Str (ascii ''getvar:identify'')),
                      Read (identify_reply minor x st rest),
                      Write (Str (ascii ''getvar:getchipinfo-'' @ str_int page)),
                      Read (okay_bytes @ payload)],
         inbox = rs, bus = b, image = im\<rparr>)
    \<and> (offset = 0 \<and> 0 \<le> nbytes \<longrightarrow>
         fst (get_chipinfo page (Some offset) (Some nbytes)
           \<lparr>trace = t, inbox = identify_reply minor x st rest # (okay_bytes @ payload) # rs,
              bus = b, image = im\<rparr>) = Inr (take (nat nbytes) payload))
    \<and> (0 < offset \<and> offset + nbytes = int (length payload) \<longrightarrow>
         fst (get_chipinfo page (Some offset) (Some nbytes)
           \<lparr>trace = t, inbox = identify_reply minor x st rest # (okay_bytes @ payload) # rs,
              bus = b, image = im\<rparr>) =
           Inl (RuntimeError (ascii ''Bad parameters: out of bound access'')))"
proof -
  have d: "drop 4 (okay_bytes @ payload) = payload" by simp
  have eq: "get_chipinfo page (Some offset) (Some nbytes)
       \<lparr>trace = t, inbox = identify_reply minor x st rest # (okay_bytes @ payload) # rs,
          bus = b, image = im\<rparr> =
     (if offset > 0 \<and> offset + nbytes \<ge> int (length payload)
      then Inl (RuntimeError (ascii ''Bad parameters: out of bound access''))
      else Inr (py_slice payload offset (offset + nbytes)),
      \<lparr>trace = t @ [Write (Str (ascii ''getvar:identify'')),
                      Read (identify_reply minor x st rest),
                      Write (Str (ascii ''getvar:getchipinfo-'' @ str_int page)),
                      Read (okay_bytes @ payload)],
         inbox = rs, bus = b, image = im\<rparr>)"
    using assms by (auto simp: get_chipinfo_def io_defs Let_def)
  have z: "0 \<le> nbytes \<Longrightarrow> py_slice payload 0 nbytes = take (nat nbytes) payload"
    by (simp add: py_slice_def clamp_index_def slice_def min_def)
  show ?thesis using eq z by auto
qed

theorem get_chipinfo_bound_check_witness:
  "fst (get_chipinfo 1 (Some 60) (Some 4)
      \<lparr>trace = [], inbox = [identify_reply 0 0 ROM [], okay_bytes @ replicate 64 0],
         bus = [], image = []\<rparr>) =
     Inl (RuntimeError (ascii ''Bad parameters: out of bound access'')) \<and>
   fst (get_chipinfo 1 (Some 59) (Some 4)
      \<lparr>trace = [], inbox = [identify_reply 0 0 ROM [], okay_bytes @ replicate 64 0],
         bus = [], image = []\<rparr>) = Inr (replicate 4 0) \<and>
   fst (get_chipinfo 1 (Some 0) (Some 100)
      \<lparr>trace = [], inbox = [identify_reply 0 0 ROM [], okay_bytes @ replicate 64 0],
         bus = [], image = []\<rparr>) = Inr (replicate 64 0)"
  using get_chipinfo_bound_check [of ROM 1 60 4 "[]" 0 0 "[]" "replicate 64 0" "[]" "[]" "[]"]
    get_chipinfo_bound_check [of ROM 1 59 4 "[]" 0 0 "[]" "replicate 64 0" "[]" "[]" "[]"]
    get_chipinfo_bound_check [of ROM 1 0 100 "[]" 0 0 "[]" "replicate 64 0" "[]" "[]" "[]"]
  by (simp add: py_slice_def clamp_index_def slice_def)

lemma str_int_1 [simp]: "str_int 1 = ascii ''1''"
  by (simp add: str_int_def digit_char_def ascii_def)

lemma get_chipinfo_page1:
  assumes "st = ROM \<or> st = SPL" "0 < offset" "offset + nbytes < int (length pg)"
  shows "get_chipinfo 1 (Some offset) (Some nbytes)
       \<lparr>trace = t, inbox = identify_reply minor x st rest # (okay_bytes @ pg) # rs,
          bus = b, image = im\<rparr> =
     (Inr (py_slice pg offset (offset + nbytes)),
      \<lparr>trace = t @ [Write (Str (ascii ''getvar:identify'')),
                      Read (identify_reply minor x st rest),
                      Write (Str (ascii ''getvar:getchipinfo-1'')),
                      Read (okay_bytes @ pg)],
         inbox = rs, bus = b, image = im\<rparr>)"
  using assms by (auto simp: get_chipinfo_def io_defs Let_def ascii_def)

lemma py_slice_nat:
  "py_slice xs (int a) (int c) = slice xs a c"
  by (auto simp: py_slice_def clamp_index_def slice_def min_def)

lemma FeatSecurebootMask_name:
  "FeatSecurebootMask (SocFamily_name fam) =
     (if fam \<in> {A1, C1, C2} then Inr 0x01 else if fam \<in> {T5, T5D} then Inr 0x10 else Inl KeyError)"
  by (cases fam) (simp_all add: FeatSecurebootMask_def ascii_def)

text \<open>
  Claim C6. With the device in ROM stage, \<open>is_secureboot_enabled\<close> returns the feature word
  masked with \<open>0x01\<close> for the families A1, C1, C2 and with \<open>0x10\<close> for T5, T5D (truthy iff
  that value is not zero), and raises \<open>KeyError\<close> for SC2, T7 and S4. When the reported
  stage is not ROM it raises right after the identify exchange: no chip-info query is
  written.
\<close>

theorem is_secureboot_enabled_masks:
  assumes "40 < length pga" "8 < length pgb"
    and "SocFamily_of (from_bytes_le (slice pgb 4 8)) = Inr fam"
  shows
   "is_secureboot_enabled
       \<lparr>trace = t,
          inbox = identify_reply ma xa ROM ra # identify_reply mb xb ROM rb # (okay_bytes @ pga)
                  # identify_reply mc xc ROM rc # (okay_bytes @ pgb) # rs,
          bus = b, image = im\<rparr> =
     (if fam \<in> {A1, C1, C2} then Inr (from_bytes_le (slice pga 0x24 0x28) AND 0x01)
      else if fam \<in> {T5, T5D} then Inr (from_bytes_le (slice pga 0x24 0x28) AND 0x10)
      else Inl KeyError,
      \<lparr>trace = t @ [Write (Str (ascii ''getvar:identify'')), Read (identify_reply ma xa ROM ra),
                      Write (Str (ascii ''getvar:identify'')), Read (identify_reply mb xb ROM rb),
                      Write (Str (ascii ''getvar:getchipinfo-1'')), Read (okay_bytes @ pga),
                      Write (Str (ascii ''getvar:identify'')), Read (identify_reply mc xc ROM rc),
                      Write (Str (ascii ''getvar:getchipinfo-1'')), Read (okay_bytes @ pgb)],
         inbox = rs, bus = b, image = im\<rparr>)
    \<and> (st \<noteq> ROM \<longrightarrow>
         is_secureboot_enabled
           \<lparr>trace = t, inbox = identify_reply ma xa st ra # rs, bus = b, image = im\<rparr> =
          (Inl (RuntimeError (ascii ''Non suitable stage:'' @ Stage_name st
                              @ ascii '' for 'secureboot' query'')),
           \<lparr>trace = t @ [Write (Str (ascii ''getvar:identify'')),
                           Read (identify_reply ma xa st ra)],
              inbox = rs, bus = b, image = im\<rparr>))"
proof -
  have f: "py_slice pga 0x24 0x28 = slice pga 0x24 0x28"
    using py_slice_nat[of pga "0x24" "0x28"] by simp
  have g: "py_slice pgb 4 8 = slice pgb 4 8"
    using py_slice_nat[of pgb 4 8] by simp
  have c1: "(0x24::int) + 4 < int (length pga)" using assms(1) by simp
  have c2: "(0x4::int) + 4 < int (length pgb)" using assms(2) by simp
  show ?thesis
    using assms(3)
    by (simp add: is_secureboot_enabled_def adnl_get_feat_def adnl_get_soc_family_id_def io_defs
        get_chipinfo_page1[OF _ _ c1] get_chipinfo_page1[OF _ _ c2] f g FeatSecurebootMask_name
        del: insert_iff)
qed

lemma chip_page_fields:
  "length (chip_page family feat) = 64"
  "slice (chip_page family feat) 4 8 = [family, 0, 0, 0]"
  "slice (chip_page family feat) 0x24 0x28 = [feat, 0, 0, 0]"
  by (simp_all add: chip_page_def slice_def)

theorem is_secureboot_enabled_masks_witness:
  "fst (is_secureboot_enabled
      \<lparr>trace = [],
         inbox = [identify_reply 0 0 ROM [], identify_reply 0 0 ROM [],
                  okay_bytes @ chip_page 0x34 0x10, identify_reply 0 0 ROM [],
                  okay_bytes @ chip_page 0x34 0x10],
         bus = [], image = []\<rparr>) = Inr 0x10 \<and>
   fst (is_secureboot_enabled
      \<lparr>trace = [],
         inbox = [identify_reply 0 0 ROM [], identify_reply 0 0 ROM [],
                  okay_bytes @ chip_page 0x32 0x10, identify_reply 0 0 ROM [],
                  okay_bytes @ chip_page 0x32 0x10],
         bus = [], image = []\<rparr>) = Inl KeyError \<and>
   is_secureboot_enabled
      \<lparr>trace = [], inbox = [identify_reply 0 0 SPL [], okay_bytes @ chip_page 0x34 0x10],
         bus = [], image = []\<rparr> =
     (Inl (RuntimeError (ascii ''Non suitable stage:BL2 for 'secureboot' query'')),
      \<lparr>trace = [Write (Str (ascii ''getvar:identify'')), Read (identify_reply 0 0 SPL [])],
         inbox = [okay_bytes @ chip_page 0x34 0x10], bus = [], image = []\<rparr>)"
proof -
  have t5: "SocFamily_of (from_bytes_le (slice (chip_page 0x34 0x10) 4 8)) = Inr T5"
    by (simp add: chip_page_fields SocFamily_of_def)
  have sc2: "SocFamily_of (from_bytes_le (slice (chip_page 0x32 0x10) 4 8)) = Inr SC2"
    by (simp add: chip_page_fields SocFamily_of_def)
  have l: "40 < length (chip_page f g)" "8 < length (chip_page f g)" for f g
    by (simp_all add: chip_page_fields)
  show ?thesis
    using is_secureboot_enabled_masks [OF l t5, where t="[]" and ma=0 and xa=0 and ra="[]" and mb=0 and xb=0 and rb="[]" and mc=0 and xc=0 and rc="[]" and b="[]" and im="[]" and st=SPL and rs="[]"]
      is_secureboot_enabled_masks [OF l sc2, where t="[]" and ma=0 and xa=0 and ra="[]" and mb=0 and xb=0 and rb="[]" and mc=0 and xc=0 and rc="[]" and b="[]" and im="[]" and st=SPL and rs="[]"]
      is_secureboot_enabled_masks [OF l t5, where t="[]" and ma=0 and xa=0 and ra="[]" and mb=0 and xb=0 and rb="[]" and mc=0 and xc=0 and rc="[]" and b="[]" and im="[]" and st=SPL and rs="[okay_bytes @ chip_page 0x34 0x10]"]
    by (simp add: chip_page_fields ascii_def)
qed

lemma verify_poll_step:
  "verify_poll \<lparr>trace = t, inbox = r # rs, bus = b, image = im\<rparr> =
     (if adnl_get_prefix r = Inr ADNL_REPLY_INFO then
        verify_poll \<lparr>trace = t @ [Read r, Sleep 1], inbox = rs, bus = b, image = im\<rparr>
      else (poll_outcome r, \<lparr>trace = t @ [Read r], inbox = rs, bus = b, image = im\<rparr>))"
  by (subst verify_poll.simps)
     (auto simp: adnl_get_prefix_def decode_def slice_def poll_outcome_def ADNL_REPLY_INFO_def
        ADNL_REPLY_OKAY_def ascii_def split: option.splits)

lemma verify_poll_empty:
  "verify_poll \<lparr>trace = t, inbox = [], bus = b, image = im\<rparr> =
     (Inl USBTimeoutError, \<lparr>trace = t, inbox = [], bus = b, image = im\<rparr>)"
  by (subst verify_poll.simps) simp

text \<open>
  Claim C7, as amended. In the verification poll, for every sequence of replies: each reply
  with the prefix \<open>INFO\<close> is followed by a sleep of one second and another read; the first
  other reply ends the poll, successfully when its prefix is \<open>OKAY\<close>, with
  \<open>RuntimeError('CRC error for partition')\<close> (the same text for every partition) when its
  prefix is any other text, and with \<open>UnicodeDecodeError\<close> when its first four bytes are
  not valid UTF-8. When the replies run out the read times out.
\<close>

theorem verify_poll_replies:
  assumes "list_all (\<lambda>i. adnl_get_prefix i = Inr ADNL_REPLY_INFO) infos"
  shows "(adnl_get_prefix r \<noteq> Inr ADNL_REPLY_INFO \<longrightarrow>
          verify_poll \<lparr>trace = t, inbox = infos @ r # rest, bus = b, image = im\<rparr> =
            (poll_outcome r,
             \<lparr>trace = t @ concat (map (\<lambda>i. [Read i, Sleep 1]) infos) @ [Read r],
                inbox = rest, bus = b, image = im\<rparr>))
       \<and> verify_poll \<lparr>trace = t, inbox = infos, bus = b, image = im\<rparr> =
            (Inl USBTimeoutError,
             \<lparr>trace = t @ concat (map (\<lambda>i. [Read i, Sleep 1]) infos),
                inbox = [], bus = b, image = im\<rparr>)"
  using assms
proof (induction infos arbitrary: t)
  case Nil
  show ?case by (simp add: verify_poll_step verify_poll_empty)
next
  case (Cons i infos)
  then have i: "adnl_get_prefix i = Inr ADNL_REPLY_INFO"
    and r: "list_all (\<lambda>i. adnl_get_prefix i = Inr ADNL_REPLY_INFO) infos" by simp_all
  show ?case using Cons.IH[OF r, of "t @ [Read i, Sleep 1]"] i
    by (simp add: verify_poll_step)
qed

lemma upt_0_2: "[0..<2] = [0, Suc 0]"
  by (simp add: numeral_2_eq_2)

theorem verify_poll_replies_witness:
  "verify_poll \<lparr>trace = [], inbox = [info_bytes, info_bytes, okay_bytes], bus = [], image = []\<rparr> =
     (Inr (), \<lparr>trace = [Read info_bytes, Sleep 1, Read info_bytes, Sleep 1, Read okay_bytes],
                inbox = [], bus = [], image = []\<rparr>) \<and>
   verify_poll \<lparr>trace = [], inbox = [info_bytes, fail_bytes, okay_bytes], bus = [], image = []\<rparr> =
     (Inl (RuntimeError (ascii ''CRC error for partition'')),
      \<lparr>trace = [Read info_bytes, Sleep 1, Read fail_bytes], inbox = [okay_bytes],
         bus = [], image = []\<rparr>) \<and>
   verify_poll \<lparr>trace = [], inbox = [info_bytes], bus = [], image = []\<rparr> =
     (Inl USBTimeoutError,
      \<lparr>trace = [Read info_bytes, Sleep 1], inbox = [], bus = [], image = []\<rparr>)"
proof -
  have i: "adnl_get_prefix info_bytes = Inr ADNL_REPLY_INFO"
    by (simp add: adnl_get_prefix_def slice_def decode_def info_bytes_def ADNL_REPLY_INFO_def ascii_def)
  have o: "adnl_get_prefix okay_bytes \<noteq> Inr ADNL_REPLY_INFO" "poll_outcome okay_bytes = Inr ()"
    by (simp_all add: adnl_get_prefix_def slice_def decode_def okay_bytes_def ADNL_REPLY_INFO_def
        poll_outcome_def ascii_def)
  have f: "adnl_get_prefix fail_bytes \<noteq> Inr ADNL_REPLY_INFO"
    "poll_outcome fail_bytes = Inl (RuntimeError (ascii ''CRC error for partition''))"
    by (simp_all add: adnl_get_prefix_def slice_def decode_def fail_bytes_def ADNL_REPLY_INFO_def
        poll_outcome_def ascii_def)
  show ?thesis
    using verify_poll_replies [of "[info_bytes, info_bytes]" okay_bytes "[]" "[]" "[]" "[]"]
      verify_poll_replies [of "[info_bytes]" fail_bytes "[]" "[okay_bytes]" "[]" "[]"]
      i o f
    by simp
qed

text \<open>
  Claim C7 as stated fails: burning the partition \<open>boot\<close> with a \<open>FAIL\<close> reply to the
  verification raises an error whose message does not name \<open>boot\<close>, and a reply that is not
  UTF-8 raises a decoding error.
\<close>

theorem verify_error_does_not_name_partition:
  "fst (tpl_burn_partition 0
     \<lparr>trace = [], inbox = [okay_bytes, okay_bytes, fail_bytes], bus = [],
        image = [\<lparr>main_type = ascii ''PARTITION'', sub_type = ascii ''boot'',
                   content = [1, 2, 3, 4], cursor = 0\<rparr>,
                 \<lparr>main_type = ascii ''VERIFY'', sub_type = ascii ''boot'',
                   content = [0x73, 0x68, 0x61, 0x31, 0x73, 0x75, 0x6d, 0x20, 0x30, 0x30],
                   cursor = 0\<rparr>]\<rparr>) =
     Inl (RuntimeError (ascii ''CRC error for partition'')) \<and>
   \<not> contains (ascii ''CRC error for partition'') (ascii ''boot'') \<and>
   fst (verify_poll \<lparr>trace = [], inbox = [[0xff, 0xff, 0xff, 0xff]], bus = [], image = []\<rparr>) =
     Inl UnicodeDecodeError"
proof -
  have f: "adnl_get_prefix fail_bytes \<noteq> Inr ADNL_REPLY_INFO"
    "poll_outcome fail_bytes = Inl (RuntimeError (ascii ''CRC error for partition''))"
    by (simp_all add: adnl_get_prefix_def slice_def decode_def fail_bytes_def ADNL_REPLY_INFO_def
        poll_outcome_def ascii_def)
  have x: "adnl_get_prefix [0xff, 0xff, 0xff, 0xff] \<noteq> Inr ADNL_REPLY_INFO"
    "poll_outcome [0xff, 0xff, 0xff, 0xff] = Inl UnicodeDecodeError"
    by (simp_all add: adnl_get_prefix_def slice_def decode_def poll_outcome_def)
  have up: "tpl_upload 0 \<lparr>trace = t, inbox = okay_bytes # rs, bus = b, image = im\<rparr> =
     (Inr (), \<lparr>trace = t @ [Write (Str (ascii ''mwrite:verify=addsum'')), Read okay_bytes],
                inbox = rs, bus = b, image = im\<rparr>)" for t rs b im
    by (subst tpl_upload.simps)
       (simp add: io_defs startswith_def decode_def okay_bytes_def ADNL_REPLY_OKAY_def ascii_def)
  show ?thesis
    by (simp add: tpl_burn_partition_def io_defs item_sub_type_def item_size_def item_get_def
        item_read_all_def up upt_0_2 decode_def verify_poll_step f x Let_def fmt_x_def
        send_cmd_okay[of _ _ "[]", simplified] ascii_def)
qed

lemma to_bytes4_burnsteps:
  "to_bytes4 BOOTROM_BURNSTEPS_0 = Inr [0, 0, 4, 0xc0]"
  "to_bytes4 BOOTROM_BURNSTEPS_1 = Inr [1, 0, 4, 0xc0]"
  "to_bytes4 BOOTROM_BURNSTEPS_2 = Inr [2, 0, 4, 0xc0]"
  "to_bytes4 BOOTROM_BURNSTEPS_3 = Inr [3, 0, 4, 0xc0]"
  by (simp_all add: to_bytes4_def BOOTROM_BURNSTEPS_0_def BOOTROM_BURNSTEPS_1_def
      BOOTROM_BURNSTEPS_2_def BOOTROM_BURNSTEPS_3_def upt_rec drop_bit_eq_div)

lemma send_burnsteps_eval:
  "to_bytes4 v = Inr arg \<Longrightarrow>
   send_burnsteps v \<lparr>trace = t, inbox = (data_bytes @ xs) # (okay_bytes @ ys) # rs, bus = b, image = im\<rparr> =
     (Inr (), \<lparr>trace = t @ [Write (Str (ascii ''setvar:burnsteps'')), Read (data_bytes @ xs),
                              Write (Bytes arg), Read (okay_bytes @ ys)],
                inbox = rs, bus = b, image = im\<rparr>)"
  by (simp add: send_burnsteps_def io_defs)

lemma py_int_0x40: "py_int 0 (map unat [0x30, 0x78, 0x34, 0x30 :: byte]) = Inr 64"
  by (simp add: py_int_def unsigned_value_def is_space_def digit_value_def Let_def)

lemma replicate_6: "replicate 6 x = [x, x, x, x, x, x]"
  by (simp add: eval_nat_numeral)

lemma fmt_08x_64: "fmt_08x 64 = ascii ''00000040''"
  by (simp add: fmt_08x_def zfill_def digits.simps[of 16 64] digit_char_def ascii_def replicate_6)

text \<open>
  Whatever size the device reports, the frame after \<open>download:<bl2_size:08x>\<close> is the whole
  item: \<open>bl2_size\<close> only appears in the text of the \<open>download:\<close> command.
\<close>

lemma run_bootrom_stage_payload:
  assumes "py_int 0 (map unat digs) = Inr bl2_size" "0 \<notin> set digs"
  shows "frames (trace (snd (run_bootrom_stage 0
      \<lparr>trace = [],
         inbox = [okay_bytes, okay_bytes, okay_bytes, okay_bytes, okay_bytes, okay_bytes,
                  data_bytes, okay_bytes, okay_bytes, data_bytes, okay_bytes,
                  okay_bytes @ digs @ [0],
                  data_bytes, okay_bytes, data_bytes, okay_bytes, okay_bytes],
         bus = [],
         image = [\<lparr>main_type = ascii ''USB'', sub_type = ascii ''DDR'',
                    content = d, cursor = 0\<rparr>]\<rparr>))) =
     [Str (ascii ''getvar:serialno''), Str (ascii ''getvar:getchipinfo-1''),
      Str (ascii ''getvar:getchipinfo-0''), Str (ascii ''getvar:getchipinfo-1''),
      Str (ascii ''getvar:getchipinfo-2''), Str (ascii ''getvar:getchipinfo-3''),
      Str (ascii ''setvar:burnsteps''), Bytes [0, 0, 4, 0xc0],
      Str (ascii ''getvar:getchipinfo-1''),
      Str (ascii ''setvar:burnsteps''), Bytes [1, 0, 4, 0xc0],
      Str (ascii ''getvar:downloadsize''),
      Str (ascii ''download:'' @ fmt_08x bl2_size), Bytes d,
      Str (ascii ''setvar:burnsteps''), Bytes [2, 0, 4, 0xc0],
      Str (ascii ''boot'')]"
proof -
  have o: "send_cmd cmd ADNL_REPLY_OKAY \<lparr>trace = t, inbox = okay_bytes # rs, bus = b, image = im\<rparr> =
     (Inr okay_bytes, \<lparr>trace = t @ [Write cmd, Read okay_bytes], inbox = rs, bus = b, image = im\<rparr>)"
    for cmd t rs b im using send_cmd_okay[of cmd t "[]" rs b im] by simp
  have d: "send_cmd cmd ADNL_REPLY_DATA \<lparr>trace = t, inbox = data_bytes # rs, bus = b, image = im\<rparr> =
     (Inr data_bytes, \<lparr>trace = t @ [Write cmd, Read data_bytes], inbox = rs, bus = b, image = im\<rparr>)"
    for cmd t rs b im using send_cmd_data[of cmd t "[]" rs b im] by simp
  have bs: "to_bytes4 v = Inr arg \<Longrightarrow>
     send_burnsteps v \<lparr>trace = t, inbox = data_bytes # okay_bytes # rs, bus = b, image = im\<rparr> =
     (Inr (), \<lparr>trace = t @ [Write (Str (ascii ''setvar:burnsteps'')), Read data_bytes,
                              Write (Bytes arg), Read okay_bytes],
                inbox = rs, bus = b, image = im\<rparr>)" for v arg t rs b im
    using send_burnsteps_eval[of v arg t "[]" "[]" rs b im] by simp
  have "takeWhile (\<lambda>b. b \<noteq> 0) (digs @ [0]) = digs"
    using assms(2) by (induction digs) auto
  then have tw: "takeWhile (\<lambda>b. b \<noteq> 0) (okay_bytes @ digs @ [0]) = okay_bytes @ digs"
    by (simp add: okay_bytes_def)
  show ?thesis
    using assms(1)
    by (simp add: run_bootrom_stage_def io_defs item_get_def item_read_all_def Let_def o d
        bs[OF to_bytes4_burnsteps(1)] bs[OF to_bytes4_burnsteps(2)] bs[OF to_bytes4_burnsteps(3)]
        tw ascii_def)
qed

text \<open>
  Claim C1. After \<open>getvar:downloadsize\<close> the ROM stage should send exactly \<open>bl2_size\<close> bytes
  of the \<open>USB\<close>/\<open>DDR\<close> item. With an item of 100 KiB and the reply \<open>0x40\<close>, the driver
  announces \<open>download:00000040\<close> and then writes the whole item, 102400 bytes.
\<close>

theorem run_bootrom_stage_sends_whole_item:
  "fst (run_bootrom_stage 0
      \<lparr>trace = [],
         inbox = [okay_bytes, okay_bytes, okay_bytes, okay_bytes, okay_bytes, okay_bytes,
                  data_bytes, okay_bytes, okay_bytes, data_bytes, okay_bytes,
                  okay_bytes @ [0x30, 0x78, 0x34, 0x30, 0x00],
                  data_bytes, okay_bytes, data_bytes, okay_bytes, okay_bytes],
         bus = [],
         image = [\<lparr>main_type = ascii ''USB'', sub_type = ascii ''DDR'',
                    content = replicate 102400 0xaa, cursor = 0\<rparr>]\<rparr>) = Inr () \<and>
   frames (trace (snd (run_bootrom_stage 0
      \<lparr>trace = [],
         inbox = [okay_bytes, okay_bytes, okay_bytes, okay_bytes, okay_bytes, okay_bytes,
                  data_bytes, okay_bytes, okay_bytes, data_bytes, okay_bytes,
                  okay_bytes @ [0x30, 0x78, 0x34, 0x30, 0x00],
                  data_bytes, okay_bytes, data_bytes, okay_bytes, okay_bytes],
         bus = [],
         image = [\<lparr>main_type = ascii ''USB'', sub_type = ascii ''DDR'',
                    content = replicate 102400 0xaa, cursor = 0\<rparr>]\<rparr>))) =
     [Str (ascii ''getvar:serialno''), Str (ascii ''getvar:getchipinfo-1''),
      Str (ascii ''getvar:getchipinfo-0''), Str (ascii ''getvar:getchipinfo-1''),
      Str (ascii ''getvar:getchipinfo-2''), Str (ascii ''getvar:getchipinfo-3''),
      Str (ascii ''setvar:burnsteps''), Bytes [0, 0, 4, 0xc0],
      Str (ascii ''getvar:getchipinfo-1''),
      Str (ascii ''setvar:burnsteps''), Bytes [1, 0, 4, 0xc0],
      Str (ascii ''getvar:downloadsize''),
      Str (ascii ''download:00000040''), Bytes (replicate 102400 0xaa),
      Str (ascii ''setvar:burnsteps''), Bytes [2, 0, 4, 0xc0],
      Str (ascii ''boot'')]"
proof -
  have o: "send_cmd cmd ADNL_REPLY_OKAY \<lparr>trace = t, inbox = okay_bytes # rs, bus = b, image = im\<rparr> =
     (Inr okay_bytes, \<lparr>trace = t @ [Write cmd, Read okay_bytes], inbox = rs, bus = b, image = im\<rparr>)"
    for cmd t rs b im using send_cmd_okay[of cmd t "[]" rs b im] by simp
  have d: "send_cmd cmd ADNL_REPLY_DATA \<lparr>trace = t, inbox = data_bytes # rs, bus = b, image = im\<rparr> =
     (Inr data_bytes, \<lparr>trace = t @ [Write cmd, Read data_bytes], inbox = rs, bus = b, image = im\<rparr>)"
    for cmd t rs b im using send_cmd_data[of cmd t "[]" rs b im] by simp
  have bs: "to_bytes4 v = Inr arg \<Longrightarrow>
     send_burnsteps v \<lparr>trace = t, inbox = data_bytes # okay_bytes # rs, bus = b, image = im\<rparr> =
     (Inr (), \<lparr>trace = t @ [Write (Str (ascii ''setvar:burnsteps'')), Read data_bytes,
                              Write (Bytes arg), Read okay_bytes],
                inbox = rs, bus = b, image = im\<rparr>)" for v arg t rs b im
    using send_burnsteps_eval[of v arg t "[]" "[]" rs b im] by simp
  have tw: "takeWhile (\<lambda>b. b \<noteq> 0) (okay_bytes @ [0x30, 0x78, 0x34, 0x30, 0x00]) =
      okay_bytes @ [0x30, 0x78, 0x34, 0x30]"
    by (simp add: okay_bytes_def)
  show ?thesis
    by (simp add: run_bootrom_stage_def io_defs item_get_def item_read_all_def Let_def o d
        bs[OF to_bytes4_burnsteps(1)] bs[OF to_bytes4_burnsteps(2)] bs[OF to_bytes4_burnsteps(3)]
        tw py_int_0x40[simplified] fmt_08x_64 ascii_def)
qed

section \<open>Verification: the CBW loop of the BL2 stage\<close>

lemma from_bytes_le_u32: "n < 2 ^ 32 \<Longrightarrow> from_bytes_le (u32_le n) = int n"
proof -
  assume n: "n < 2 ^ 32"
  have u: "uint (of_nat k :: byte) = int (k mod 256)" for k
    by (simp add: uint_nat unat_of_nat)
  have d: "n div 16777216 < 256" using n by simp
  have q1: "(n div 256) div 256 = n div 65536" by (simp add: div_mult2_eq[symmetric])
  have q2: "(n div 65536) div 256 = n div 16777216" by (simp add: div_mult2_eq[symmetric])
  have a: "n = n mod 256 + 256 * (n div 256)" by simp
  have b: "n div 256 = (n div 256) mod 256 + 256 * (n div 65536)"
    using mod_mult_div_eq[of "n div 256" 256] q1 by simp
  have c: "n div 65536 = (n div 65536) mod 256 + 256 * (n div 16777216)"
    using mod_mult_div_eq[of "n div 65536" 256] q2 by simp
  have "n = n mod 256 + 256 * ((n div 256) mod 256) + 65536 * ((n div 65536) mod 256)
            + 16777216 * (n div 16777216)"
    using a b c by linarith
  then have "int n = int (n mod 256 + 256 * ((n div 256) mod 256)
            + 65536 * ((n div 65536) mod 256) + 16777216 * (n div 16777216))"
    by simp
  then show ?thesis using d by (simp add: u32_le_def u)
qed

lemma CBW_init_cbw_reply:
  assumes "seq < 2 ^ 32" "sz < 2 ^ 32" "off < 2 ^ 32"
  shows "CBW_init (cbw_reply seq sz off nc e) =
     Inr \<lparr>cbw_seq = int seq, cbw_size = int sz, cbw_offs = int off,
           cbw_need_checksum = (nc = 0), cbw_end = uint e\<rparr>"
proof -
  have l: "length (u32_le k) = 4" for k by (simp add: u32_le_def)
  have s: "slice (cbw_reply seq sz off nc e) 4 8 = amlc_bytes"
    "slice (cbw_reply seq sz off nc e) 8 12 = u32_le seq"
    "slice (cbw_reply seq sz off nc e) 12 16 = u32_le sz"
    "slice (cbw_reply seq sz off nc e) 16 20 = u32_le off"
    "slice (cbw_reply seq sz off nc e) 20 21 = [nc]"
    by (simp_all add: cbw_reply_def slice_def l amlc_bytes_def)
  have i: "index (cbw_reply seq sz off nc e) 21 = Inr e"
    by (simp add: cbw_reply_def index_def l amlc_bytes_def nth_append)
  have m: "decode amlc_bytes = Inr (ascii ''AMLC'')"
    by (simp add: decode_def amlc_bytes_def ascii_def)
  show ?thesis using assms
    by (simp add: CBW_init_def s i m from_bytes_le_u32 uint_0_iff)
qed

lemma chunks_of_Nil [simp]: "chunks_of n [] = []"
  by (subst chunks_of.simps) simp

lemma chunks_of_step:
  "0 < n \<Longrightarrow> xs \<noteq> [] \<Longrightarrow> chunks_of n xs = take n xs # chunks_of n (drop n xs)"
  by (subst chunks_of.simps) simp

lemma reraise_runtime_ok:
  "m w = (Inr x, w') \<Longrightarrow> reraise_runtime m text w = (Inr x, w')"
  by (simp add: reraise_runtime_def)

lemma acks_step:
  "0 < sz \<Longrightarrow>
   chunk_acks sz =
     data_bytes # okay_bytes
       # chunk_acks (sz - min sz USB_BULK_SIZE)"
proof -
  assume p: "0 < sz"
  have "(sz + USB_BULK_SIZE - 1) div USB_BULK_SIZE =
        Suc ((sz - min sz USB_BULK_SIZE + USB_BULK_SIZE - 1) div USB_BULK_SIZE)"
    using p by (cases "sz < USB_BULK_SIZE") (auto simp: USB_BULK_SIZE_def min_def)
  then show ?thesis by (simp add: chunk_acks_def)
qed

lemma chunk_acks_0 [simp]: "chunk_acks 0 = []"
  by (simp add: chunk_acks_def USB_BULK_SIZE_def)

lemma bl2_send_chunks_run:
  "offs + sz \<le> length buf \<Longrightarrow>
   bl2_send_chunks buf (int sz) offs cur
       \<lparr>trace = t,
          inbox = chunk_acks sz @ rs,
          bus = b, image = im\<rparr> =
     (Inr (cur + sum_list (map adnl_checksum (chunks_of USB_BULK_SIZE (slice buf offs (offs + sz))))),
      \<lparr>trace = t @ concat (map chunk_events (chunks_of USB_BULK_SIZE (slice buf offs (offs + sz)))),
         inbox = rs, bus = b, image = im\<rparr>)"
proof (induction sz arbitrary: offs cur t rule: less_induct)
  case (less sz)
  show ?case
  proof (cases "sz = 0")
    case True
    then show ?thesis by (subst bl2_send_chunks.simps) (simp add: slice_def USB_BULK_SIZE_def)
  next
    case False
    then have pos: "0 < sz" by simp
    let ?k = "min sz USB_BULK_SIZE"
    let ?s = "slice buf offs (offs + sz)"
    let ?c = "slice buf offs (offs + ?k)"
    have kpos: "0 < ?k" using pos by (simp add: USB_BULK_SIZE_def)
    have ls: "length ?s = sz" using less.prems by (simp add: slice_def)
    have c: "?c = take ?k ?s" by (simp add: slice_def min_def)
    have lc: "length ?c = ?k" using ls c by simp
    have dr: "drop ?k ?s = slice buf (offs + ?k) (offs + ?k + (sz - ?k))"
      by (simp add: slice_def add.commute min_def drop_take)
    have ne: "?s \<noteq> []" using ls pos by auto
    have ch: "chunks_of USB_BULK_SIZE ?s =
        ?c # chunks_of USB_BULK_SIZE (slice buf (offs + ?k) (offs + ?k + (sz - ?k)))"
    proof -
      have "chunks_of USB_BULK_SIZE ?s = take USB_BULK_SIZE ?s # chunks_of USB_BULK_SIZE (drop USB_BULK_SIZE ?s)"
        using ne by (intro chunks_of_step) (simp_all add: USB_BULK_SIZE_def)
      moreover have "take USB_BULK_SIZE ?s = take ?k ?s" using ls by (simp add: min_def)
      moreover have "drop USB_BULK_SIZE ?s = drop ?k ?s" using ls by (simp add: min_def)
      ultimately show ?thesis using c dr by simp
    qed
    have ih: "bl2_send_chunks buf (int (sz - ?k)) (offs + ?k) cur' 
       \<lparr>trace = t',
          inbox = chunk_acks (sz - ?k) @ rs,
          bus = b, image = im\<rparr> =
       (Inr (cur' + sum_list (map adnl_checksum
               (chunks_of USB_BULK_SIZE (slice buf (offs + ?k) (offs + ?k + (sz - ?k)))))),
        \<lparr>trace = t' @ concat (map chunk_events
               (chunks_of USB_BULK_SIZE (slice buf (offs + ?k) (offs + ?k + (sz - ?k))))),
           inbox = rs, bus = b, image = im\<rparr>)" for cur' t'
      using less.IH[of "sz - ?k" "offs + ?k" cur' t'] kpos less.prems pos by simp
    have m: "min (int sz) (int USB_BULK_SIZE) = int ?k" by simp
    have o: "send_cmd cmd ADNL_REPLY_OKAY \<lparr>trace = t', inbox = okay_bytes # rs', bus = b, image = im\<rparr> =
       (Inr okay_bytes, \<lparr>trace = t' @ [Write cmd, Read okay_bytes], inbox = rs', bus = b, image = im\<rparr>)"
      for cmd t' rs' using send_cmd_okay[of cmd t' "[]" rs' b im] by simp
    have d: "send_cmd cmd ADNL_REPLY_DATA \<lparr>trace = t', inbox = data_bytes # rs', bus = b, image = im\<rparr> =
       (Inr data_bytes, \<lparr>trace = t' @ [Write cmd, Read data_bytes], inbox = rs', bus = b, image = im\<rparr>)"
      for cmd t' rs' using send_cmd_data[of cmd t' "[]" rs' b im] by simp
    have ro: "reraise_runtime (send_cmd cmd ADNL_REPLY_OKAY) errmsg
         \<lparr>trace = t', inbox = okay_bytes # rs', bus = b, image = im\<rparr> =
       (Inr okay_bytes, \<lparr>trace = t' @ [Write cmd, Read okay_bytes], inbox = rs', bus = b, image = im\<rparr>)"
      for cmd errmsg t' rs' by (simp add: reraise_runtime_def o)
    show ?thesis
      apply (subst bl2_send_chunks.simps)
      apply (simp only: acks_step[OF pos] m)
      using pos ih lc
      apply (simp add: Let_def d ro ch chunk_events_def add.assoc
          del: of_nat_min)
      done
  qed
qed

lemma send_and_handle_cbw_run:
  assumes "seq < 2 ^ 32" "sz < 2 ^ 32" "off < 2 ^ 32"
  shows "send_and_handle_cbw
       \<lparr>trace = t, inbox = cbw_reply seq sz off nc e # rs, bus = b, image = im\<rparr> =
     (Inr \<lparr>cbw_seq = int seq, cbw_size = int sz, cbw_offs = int off,
            cbw_need_checksum = (nc = 0), cbw_end = uint e\<rparr>,
      \<lparr>trace = t @ [Write (Str (ascii ''getvar:cbw'')), Read (cbw_reply seq sz off nc e)],
         inbox = rs, bus = b, image = im\<rparr>)"
proof -
  have "cbw_reply seq sz off nc e = okay_bytes @ (amlc_bytes @ u32_le seq @ u32_le sz @ u32_le off
          @ [nc, e] @ replicate 10 0)"
    by (simp add: cbw_reply_def)
  then have "send_cmd (Str (ascii ''getvar:cbw'')) ADNL_REPLY_OKAY
       \<lparr>trace = t, inbox = cbw_reply seq sz off nc e # rs, bus = b, image = im\<rparr> =
     (Inr (cbw_reply seq sz off nc e),
      \<lparr>trace = t @ [Write (Str (ascii ''getvar:cbw'')), Read (cbw_reply seq sz off nc e)],
         inbox = rs, bus = b, image = im\<rparr>)"
    using send_cmd_okay by metis
  then show ?thesis using assms
    by (simp add: send_and_handle_cbw_def io_defs CBW_init_cbw_reply)
qed

lemma bl2_transfer_run:
  assumes "h < length im" "off + sz \<le> length (content (im ! h))"
  shows "bl2_transfer h \<lparr>cbw_seq = sq, cbw_size = int sz, cbw_offs = int off,
                          cbw_need_checksum = nc, cbw_end = en\<rparr>
       \<lparr>trace = t,
          inbox = chunk_acks sz @ data_bytes # okay_bytes # rs,
          bus = b, image = im\<rparr> =
     (Inr (),
      \<lparr>trace = t @ concat (map chunk_events
                 (chunks_of USB_BULK_SIZE (slice (content (im ! h)) off (off + sz))))
               @ [Write (Str (ascii ''setvar:checksum'')), Read data_bytes,
                  Write (Ints (bytes_sum (sum_list (map adnl_checksum
                    (chunks_of USB_BULK_SIZE (slice (content (im ! h)) off (off + sz))))))),
                  Read okay_bytes],
         inbox = rs, bus = b, image = im[h := (im ! h)\<lparr>cursor := off + sz\<rparr>]\<rparr>)"
proof -
  let ?d = "content (im ! h)"
  let ?buf = "slice ?d off (off + sz)"
  let ?im1 = "im[h := (im ! h)\<lparr>cursor := off\<rparr>]"
  let ?im2 = "im[h := (im ! h)\<lparr>cursor := off + sz\<rparr>]"
  have lb: "length ?buf = sz" using assms(2) by (simp add: slice_def)
  have sk: "item_seek h (int off) \<lparr>trace = t', inbox = rs', bus = b, image = im\<rparr> =
      (Inr (), \<lparr>trace = t', inbox = rs', bus = b, image = ?im1\<rparr>)" for t' rs'
    using assms by (simp add: item_seek_def)
  have rd: "item_read h (int sz) \<lparr>trace = t', inbox = rs', bus = b, image = ?im1\<rparr> =
      (Inr ?buf, \<lparr>trace = t', inbox = rs', bus = b, image = ?im2\<rparr>)" for t' rs'
    using assms by (simp add: item_read_def Let_def)
  have ch: "bl2_send_chunks ?buf (int sz) 0 0
       \<lparr>trace = t,
          inbox = chunk_acks sz @ data_bytes # okay_bytes # rs,
          bus = b, image = ?im2\<rparr> =
     (Inr (sum_list (map adnl_checksum (chunks_of USB_BULK_SIZE ?buf))),
      \<lparr>trace = t @ concat (map chunk_events (chunks_of USB_BULK_SIZE ?buf)),
         inbox = data_bytes # okay_bytes # rs, bus = b, image = ?im2\<rparr>)"
    using bl2_send_chunks_run[of 0 sz ?buf 0 t "data_bytes # okay_bytes # rs" b ?im2] lb
    by (simp add: slice_def)
  have o: "send_cmd cmd ADNL_REPLY_OKAY \<lparr>trace = t', inbox = okay_bytes # rs', bus = b, image = im'\<rparr> =
       (Inr okay_bytes, \<lparr>trace = t' @ [Write cmd, Read okay_bytes], inbox = rs', bus = b, image = im'\<rparr>)"
    for cmd t' rs' im' using send_cmd_okay[of cmd t' "[]" rs' b im'] by simp
  have d: "send_cmd cmd ADNL_REPLY_DATA \<lparr>trace = t', inbox = data_bytes # rs', bus = b, image = im'\<rparr> =
       (Inr data_bytes, \<lparr>trace = t' @ [Write cmd, Read data_bytes], inbox = rs', bus = b, image = im'\<rparr>)"
    for cmd t' rs' im' using send_cmd_data[of cmd t' "[]" rs' b im'] by simp
  show ?thesis
    by (simp add: bl2_transfer_def io_defs sk rd ch o d reraise_runtime_def)
qed

lemma cbw_loop_run:
  assumes "h < length im" "content (im ! h) = d"
    and "list_all (request_ok (length d)) cs"
    and "seq < 2 ^ 32" "szf < 2 ^ 32" "offf < 2 ^ 32" "e \<noteq> 0"
  shows "\<exists>im'. cbw_loop h
       \<lparr>trace = t, inbox = cbw_script cs @ cbw_reply seq szf offf nc e # rest,
          bus = b, image = im\<rparr> =
     (Inr (),
      \<lparr>trace = t @ concat (map (transfer_events d) cs)
                 @ [Write (Str (ascii ''getvar:cbw'')), Read (cbw_reply seq szf offf nc e)],
         inbox = rest, bus = b, image = im'\<rparr>)"
  using assms(1,2,3)
proof (induction cs arbitrary: t im)
  case Nil
  have "cbw_end \<lparr>cbw_seq = int seq, cbw_size = int szf, cbw_offs = int offf,
            cbw_need_checksum = (nc = 0), cbw_end = uint e\<rparr> \<noteq> 0"
    using assms(7) by (simp add: uint_0_iff)
  then show ?case
    using send_and_handle_cbw_run[OF assms(4,5,6), of t nc e rest b im]
    by (subst cbw_loop.simps) (simp add: cbw_script_def)
next
  case (Cons c cs)
  let ?sz = "req_size c" and ?off = "req_offs c"
  have ok: "request_ok (length d) c" and r: "list_all (request_ok (length d)) cs"
    using Cons.prems(3) by simp_all
  have w: "?off + ?sz \<le> length d" and b32: "req_seq c < 2 ^ 32" "?sz < 2 ^ 32" "?off < 2 ^ 32"
    using ok by (simp_all add: request_ok_def)
  let ?im' = "im[h := (im ! h)\<lparr>cursor := ?off + ?sz\<rparr>]"
  have h': "h < length ?im'" "content (?im' ! h) = d" using Cons.prems(1,2) by simp_all
  let ?t' = "t @ transfer_events d c"
  obtain im'' where ih: "cbw_loop h
       \<lparr>trace = ?t', inbox = cbw_script cs @ cbw_reply seq szf offf nc e # rest,
          bus = b, image = ?im'\<rparr> =
     (Inr (),
      \<lparr>trace = ?t' @ concat (map (transfer_events d) cs)
                 @ [Write (Str (ascii ''getvar:cbw'')), Read (cbw_reply seq szf offf nc e)],
         inbox = rest, bus = b, image = im''\<rparr>)"
    using Cons.IH[OF h' r, of ?t'] by blast
  have s1: "send_and_handle_cbw
       \<lparr>trace = t, inbox = request_cbw c # rs', bus = b, image = im\<rparr> =
     (Inr \<lparr>cbw_seq = int (req_seq c), cbw_size = int ?sz, cbw_offs = int ?off,
            cbw_need_checksum = (req_flag c = 0), cbw_end = 0\<rparr>,
      \<lparr>trace = t @ [Write (Str (ascii ''getvar:cbw'')), Read (request_cbw c)],
         inbox = rs', bus = b, image = im\<rparr>)" for rs'
    unfolding request_cbw_def
    using send_and_handle_cbw_run[OF b32, of t "req_flag c" 0 rs' b im] by simp
  have w': "?off + ?sz \<le> length (content (im ! h))" using w Cons.prems(2) by simp
  have "cbw_loop h
       \<lparr>trace = t, inbox = cbw_script (c # cs) @ cbw_reply seq szf offf nc e # rest,
          bus = b, image = im\<rparr> =
        cbw_loop h
       \<lparr>trace = ?t', inbox = cbw_script cs @ cbw_reply seq szf offf nc e # rest,
          bus = b, image = ?im'\<rparr>"
    apply (subst cbw_loop.simps)
    apply (simp add: cbw_script_def transfer_script_def s1
        bl2_transfer_run[OF Cons.prems(1) w'] transfer_events_def Cons.prems(2) Let_def)
    done
  then show ?case using ih by auto
qed

lemma frames_append [simp]: "frames (a @ b) = frames a @ frames b"
  by (induction a rule: frames.induct) simp_all

lemma payloads_append [simp]: "payloads (a @ b) = payloads a @ payloads b"
  by (induction a rule: payloads.induct) simp_all

lemma payloads_chunk_events: "payloads (concat (map chunk_events cs)) = cs"
  by (induction cs) (simp_all add: chunk_events_def)

lemma checksum_frames_chunk_events:
  "filter (\<lambda>f. f = Str (ascii ''setvar:checksum'')) (frames (concat (map chunk_events cs))) = []"
  by (induction cs) (simp_all add: chunk_events_def ascii_def)

lemma concat_chunks_of: "0 < n \<Longrightarrow> concat (chunks_of n xs) = xs"
proof (induction n xs rule: chunks_of.induct)
  case (1 n xs)
  show ?case
  proof (cases "xs = []")
    case True
    then show ?thesis by simp
  next
    case False
    then show ?thesis using 1 by (simp add: chunks_of_step)
  qed
qed

lemma chunks_of_bound: "list_all (\<lambda>p. length p \<le> n) (chunks_of n xs)"
proof (induction n xs rule: chunks_of.induct)
  case (1 n xs)
  show ?case
  proof (cases "n = 0 \<or> xs = []")
    case True
    then show ?thesis by (subst chunks_of.simps) simp
  next
    case False
    then show ?thesis using 1 by (simp add: chunks_of_step)
  qed
qed

lemma payloads_transfer_events:
  "payloads (transfer_events d c) = chunks_of USB_BULK_SIZE (slice d (req_offs c) (req_offs c + req_size c))"
  by (simp add: transfer_events_def Let_def payloads_chunk_events)

lemma payload_bytes_transfer:
  "req_offs c + req_size c \<le> length d \<Longrightarrow>
   sum_list (map length (payloads (transfer_events d c))) = req_size c"
proof -
  assume w: "req_offs c + req_size c \<le> length d"
  let ?s = "slice d (req_offs c) (req_offs c + req_size c)"
  have "sum_list (map length (chunks_of USB_BULK_SIZE ?s)) = length (concat (chunks_of USB_BULK_SIZE ?s))"
    by (simp add: length_concat)
  also have "\<dots> = length ?s" by (simp add: concat_chunks_of USB_BULK_SIZE_def)
  also have "\<dots> = req_size c" using w by (simp add: slice_def)
  finally show ?thesis by (simp add: payloads_transfer_events)
qed

lemma payload_bytes_transfers:
  "list_all (request_ok (length d)) cs \<Longrightarrow>
   sum_list (map length (payloads (concat (map (transfer_events d) cs)))) =
     sum_list (map req_size cs)"
  by (induction cs) (simp_all add: payload_bytes_transfer request_ok_def)

lemma payload_bound_transfers:
  "list_all (\<lambda>p. length p \<le> USB_BULK_SIZE) (payloads (concat (map (transfer_events d) cs)))"
  by (induction cs) (simp_all add: payloads_transfer_events chunks_of_bound)

lemma checksum_frames_transfers:
  "length (filter (\<lambda>f. f = Str (ascii ''setvar:checksum''))
             (frames (concat (map (transfer_events d) cs)))) = length cs"
proof (induction cs)
  case Nil
  show ?case by simp
next
  case (Cons c cs)
  have "filter (\<lambda>f. f = Str (ascii ''setvar:checksum'')) (frames (transfer_events d c)) =
          [Str (ascii ''setvar:checksum'')]"
    by (simp add: transfer_events_def Let_def checksum_frames_chunk_events)
       (simp add: ascii_def)
  then show ?case using Cons by simp
qed

lemma item_get_image:
  "item_get mt st \<lparr>trace = t, inbox = rs, bus = b, image = im\<rparr> =
     (fst (item_get mt st \<lparr>trace = [], inbox = [], bus = [], image = im\<rparr>),
      \<lparr>trace = t, inbox = rs, bus = b, image = im\<rparr>)"
  by (simp add: item_get_def split: list.splits)

lemma item_get_bound:
  assumes "fst (item_get mt st \<lparr>trace = t, inbox = rs, bus = b, image = im\<rparr>) = Inr h"
  shows "h < length im \<and> main_type (im ! h) = mt \<and> sub_type (im ! h) = st"
proof -
  let ?f = "filter (\<lambda>i. main_type (im ! i) = mt \<and> sub_type (im ! i) = st) [0 ..< length im]"
  obtain more where "?f = h # more"
    using assms by (cases ?f) (simp_all add: item_get_def)
  then have "h \<in> set ?f" by simp
  then show ?thesis by simp
qed

lemma run_bl2_stage_run:
  assumes "fst (item_get (ascii ''USB'')
                  (if has_secureboot \<noteq> 0 then ascii ''UBOOT_ENC'' else ascii ''UBOOT'')
                  \<lparr>trace = [], inbox = [], bus = [], image = im\<rparr>) = Inr h"
    and "content (im ! h) = d"
    and "list_all (request_ok (length d)) cs"
    and "seq < 2 ^ 32" "szf < 2 ^ 32" "offf < 2 ^ 32" "e \<noteq> 0"
  shows "\<exists>im'. run_bl2_stage has_secureboot
       \<lparr>trace = t,
          inbox = identify_reply m x SPL r # data_bytes # okay_bytes
                    # cbw_script cs @ cbw_reply seq szf offf nc e # rest,
          bus = b, image = im\<rparr> =
     (Inr (),
      \<lparr>trace = t @ [Write (Str (ascii ''getvar:identify'')), Read (identify_reply m x SPL r),
                    Write (Str (ascii ''setvar:burnsteps'')), Read data_bytes,
                    Write (Bytes [3, 0, 4, 0xc0]), Read okay_bytes]
                 @ concat (map (transfer_events d) cs)
                 @ [Write (Str (ascii ''getvar:cbw'')), Read (cbw_reply seq szf offf nc e)],
         inbox = rest, bus = b, image = im'\<rparr>)"
proof -
  let ?st = "if has_secureboot \<noteq> 0 then ascii ''UBOOT_ENC'' else ascii ''UBOOT''"
  let ?t = "t @ [Write (Str (ascii ''getvar:identify'')), Read (identify_reply m x SPL r),
                 Write (Str (ascii ''setvar:burnsteps'')), Read data_bytes,
                 Write (Bytes [3, 0, 4, 0xc0]), Read okay_bytes]"
  have h: "h < length im" using item_get_bound[OF assms(1)] by simp
  have bs: "send_burnsteps BOOTROM_BURNSTEPS_3
       \<lparr>trace = t', inbox = data_bytes # okay_bytes # rs, bus = b, image = im\<rparr> =
     (Inr (), \<lparr>trace = t' @ [Write (Str (ascii ''setvar:burnsteps'')), Read data_bytes,
                              Write (Bytes [3, 0, 4, 0xc0]), Read okay_bytes],
                inbox = rs, bus = b, image = im\<rparr>)" for t' rs
    using send_burnsteps_eval[OF to_bytes4_burnsteps(4), of t' "[]" "[]" rs b im] by simp
  have ig: "item_get (ascii ''USB'') ?st \<lparr>trace = t', inbox = rs, bus = b, image = im\<rparr> =
      (Inr h, \<lparr>trace = t', inbox = rs, bus = b, image = im\<rparr>)" for t' rs
    using item_get_image[of "ascii ''USB''" ?st t' rs b im] assms(1) by simp
  obtain im' where l: "cbw_loop h
       \<lparr>trace = ?t, inbox = cbw_script cs @ cbw_reply seq szf offf nc e # rest,
          bus = b, image = im\<rparr> =
     (Inr (),
      \<lparr>trace = ?t @ concat (map (transfer_events d) cs)
                 @ [Write (Str (ascii ''getvar:cbw'')), Read (cbw_reply seq szf offf nc e)],
         inbox = rest, bus = b, image = im'\<rparr>)"
    using cbw_loop_run[OF h assms(2-7), of ?t nc rest b] by blast
  have "run_bl2_stage has_secureboot
       \<lparr>trace = t,
          inbox = identify_reply m x SPL r # data_bytes # okay_bytes
                    # cbw_script cs @ cbw_reply seq szf offf nc e # rest,
          bus = b, image = im\<rparr> =
     cbw_loop h
       \<lparr>trace = ?t, inbox = cbw_script cs @ cbw_reply seq szf offf nc e # rest,
          bus = b, image = im\<rparr>"
    unfolding run_bl2_stage_def
    by (simp only: io_bind_def io_then_def send_cmd_identify_eval bs Let_def ig
          prod.case sum.case if_False simp_thms append_assoc append.simps)
  then show ?thesis using l by auto
qed

lemma chunks_of_replicate_20000:
  "chunks_of USB_BULK_SIZE (replicate 20000 x) = [replicate 16384 x, replicate 3616 x]"
proof -
  have "chunks_of 16384 (replicate 20000 x) = replicate 16384 x # chunks_of 16384 (replicate 3616 x)"
    by (subst chunks_of.simps) simp
  also have "chunks_of 16384 (replicate 3616 x) = [replicate 3616 x]"
    by (subst chunks_of.simps) simp
  finally show ?thesis by (simp add: USB_BULK_SIZE_def)
qed

text \<open>
  Claim C4, as amended. Let the device answer \<open>getvar:identify\<close> with stage SPL, acknowledge
  the burn step, and then script \<open>n\<close> CBWs with \<open>end = 0\<close>, each asking for a window
  \<open>[offset, offset + size)\<close> that lies inside the \<open>USB\<close>/\<open>UBOOT\<close> item (\<open>USB\<close>/\<open>UBOOT_ENC\<close>
  under secure boot), followed by one CBW with \<open>end\<close> not zero, and let it acknowledge every
  frame. Then \<open>run_bl2_stage\<close> returns after exactly \<open>n\<close> transmissions: after the identify
  and burn-step exchanges its trace is the \<open>n\<close> expected transfers, each window cut into
  chunks of at most 16384 bytes and each chunk sent after its
  \<open>download:<chunk_len:08x>\<close>/\<open>DATA\<close> exchange, followed by the last \<open>getvar:cbw\<close> exchange;
  \<open>setvar:checksum\<close> is written \<open>n\<close> times, and the image payload bytes written add up to
  the sum of the \<open>n\<close> size fields.
\<close>

theorem run_bl2_stage_transmissions:
  fixes t :: "event list" and rest :: "byte list list" and b :: "found list"
    and nc m x :: byte and r :: "byte list"
  assumes "fst (item_get (ascii ''USB'')
                  (if has_secureboot \<noteq> 0 then ascii ''UBOOT_ENC'' else ascii ''UBOOT'')
                  \<lparr>trace = [], inbox = [], bus = [], image = im\<rparr>) = Inr h"
    and "content (im ! h) = d"
    and "list_all (request_ok (length d)) cs"
    and "seq < 2 ^ 32" "szf < 2 ^ 32" "offf < 2 ^ 32" "e \<noteq> 0"
  defines "W \<equiv> \<lparr>trace = t,
                  inbox = identify_reply m x SPL r # data_bytes # okay_bytes
                            # cbw_script cs @ cbw_reply seq szf offf nc e # rest,
                  bus = b, image = im\<rparr>"
    and "E \<equiv> concat (map (transfer_events d) cs)"
  shows "fst (run_bl2_stage has_secureboot W) = Inr ()
       \<and> trace (snd (run_bl2_stage has_secureboot W)) =
           t @ [Write (Str (ascii ''getvar:identify'')), Read (identify_reply m x SPL r),
                Write (Str (ascii ''setvar:burnsteps'')), Read data_bytes,
                Write (Bytes [3, 0, 4, 0xc0]), Read okay_bytes]
             @ E @ [Write (Str (ascii ''getvar:cbw'')), Read (cbw_reply seq szf offf nc e)]
       \<and> inbox (snd (run_bl2_stage has_secureboot W)) = rest
       \<and> length (filter (\<lambda>f. f = Str (ascii ''setvar:checksum'')) (frames E)) = length cs
       \<and> list_all (\<lambda>p. length p \<le> 16384) (payloads E)
       \<and> sum_list (map length (payloads E)) = sum_list (map req_size cs)"
proof -
  obtain im' where "run_bl2_stage has_secureboot W =
     (Inr (), \<lparr>trace = t @ [Write (Str (ascii ''getvar:identify'')), Read (identify_reply m x SPL r),
                Write (Str (ascii ''setvar:burnsteps'')), Read data_bytes,
                Write (Bytes [3, 0, 4, 0xc0]), Read okay_bytes]
             @ E @ [Write (Str (ascii ''getvar:cbw'')), Read (cbw_reply seq szf offf nc e)],
                inbox = rest, bus = b, image = im'\<rparr>)"
    unfolding W_def E_def using run_bl2_stage_run[OF assms(1-7)] by blast
  moreover have "list_all (\<lambda>p. length p \<le> 16384) (payloads E)"
    unfolding E_def using payload_bound_transfers[of d cs] by (simp add: USB_BULK_SIZE_def)
  ultimately show ?thesis
    unfolding E_def using payload_bytes_transfers[OF assms(3)] checksum_frames_transfers[of d cs]
    by simp
qed

theorem run_bl2_stage_transmissions_witness:
  "fst (run_bl2_stage 0
      \<lparr>trace = [],
         inbox = identify_reply 0 0 SPL [] # data_bytes # okay_bytes
                   # cbw_script [\<lparr>req_seq = 0, req_size = 20000, req_offs = 0, req_flag = 0\<rparr>,
                                 \<lparr>req_seq = 1, req_size = 100, req_offs = 16384, req_flag = 1\<rparr>]
                   @ cbw_reply 2 0 0 0 1 # [],
         bus = [],
         image = [\<lparr>main_type = ascii ''USB'', sub_type = ascii ''UBOOT'',
                    content = replicate 20000 0x55, cursor = 0\<rparr>]\<rparr>) = Inr () \<and>
   trace (snd (run_bl2_stage 0
      \<lparr>trace = [],
         inbox = identify_reply 0 0 SPL [] # data_bytes # okay_bytes
                   # cbw_script [\<lparr>req_seq = 0, req_size = 20000, req_offs = 0, req_flag = 0\<rparr>,
                                 \<lparr>req_seq = 1, req_size = 100, req_offs = 16384, req_flag = 1\<rparr>]
                   @ cbw_reply 2 0 0 0 1 # [],
         bus = [],
         image = [\<lparr>main_type = ascii ''USB'', sub_type = ascii ''UBOOT'',
                    content = replicate 20000 0x55, cursor = 0\<rparr>]\<rparr>)) =
     [Write (Str (ascii ''getvar:identify'')), Read (identify_reply 0 0 SPL []),
      Write (Str (ascii ''setvar:burnsteps'')), Read data_bytes,
      Write (Bytes [3, 0, 4, 0xc0]), Read okay_bytes]
       @ transfer_events (replicate 20000 0x55)
           \<lparr>req_seq = 0, req_size = 20000, req_offs = 0, req_flag = 0\<rparr>
       @ transfer_events (replicate 20000 0x55)
           \<lparr>req_seq = 1, req_size = 100, req_offs = 16384, req_flag = 1\<rparr>
       @ [Write (Str (ascii ''getvar:cbw'')), Read (cbw_reply 2 0 0 0 1)] \<and>
   map length (payloads
       (transfer_events (replicate 20000 0x55)
          \<lparr>req_seq = 0, req_size = 20000, req_offs = 0, req_flag = 0\<rparr>
        @ transfer_events (replicate 20000 0x55)
            \<lparr>req_seq = 1, req_size = 100, req_offs = 16384, req_flag = 1\<rparr>)) =
     [16384, 3616, 100]"
proof -
  have c2: "chunks_of USB_BULK_SIZE (replicate 100 x) = [replicate 100 x]" for x :: byte
    by (subst chunks_of.simps) (simp add: USB_BULK_SIZE_def)
  have p: "map length (payloads
       (transfer_events (replicate 20000 0x55)
          \<lparr>req_seq = 0, req_size = 20000, req_offs = 0, req_flag = 0\<rparr>
        @ transfer_events (replicate 20000 0x55)
            \<lparr>req_seq = 1, req_size = 100, req_offs = 16384, req_flag = 1\<rparr>)) =
     [16384, 3616, 100]"
    by (simp add: payloads_transfer_events slice_def chunks_of_replicate_20000 c2)
  have g: "fst (item_get (ascii ''USB'') (if (0::int) \<noteq> 0 then ascii ''UBOOT_ENC'' else ascii ''UBOOT'')
                  \<lparr>trace = [], inbox = [], bus = [],
                     image = [\<lparr>main_type = ascii ''USB'', sub_type = ascii ''UBOOT'',
                                content = replicate 20000 0x55, cursor = 0\<rparr>]\<rparr>) = Inr 0"
    by (simp add: item_get_def)
  show ?thesis
    using run_bl2_stage_transmissions [of 0
        "[\<lparr>main_type = ascii ''USB'', sub_type = ascii ''UBOOT'',
            content = replicate 20000 0x55, cursor = 0\<rparr>]"
        0
        "replicate 20000 0x55"
        "[\<lparr>req_seq = 0, req_size = 20000, req_offs = 0, req_flag = 0\<rparr>,
          \<lparr>req_seq = 1, req_size = 100, req_offs = 16384, req_flag = 1\<rparr>]"
        2 0 0 1 "[]" 0 0 "[]" 0 "[]" "[]", OF g] p
    by (simp add: request_ok_def)
qed

text \<open>
  Claim C4 as stated fails: the loop never compares the window of a CBW with the size of
  the item. With an item of 4 bytes and one CBW with \<open>end = 0\<close> that asks for 8 bytes at
  offset 0, the read runs past the end of the item, the stage ends with the image error,
  no \<open>download:\<close> frame and no payload byte is written, and the replies after that CBW stay
  unread.
\<close>

theorem run_bl2_stage_window_past_item:
  "fst (run_bl2_stage 0
      \<lparr>trace = [],
         inbox = identify_reply 0 0 SPL [] # data_bytes # okay_bytes
                   # cbw_script [\<lparr>req_seq = 0, req_size = 8, req_offs = 0, req_flag = 0\<rparr>]
                   @ [cbw_reply 1 0 0 0 1],
         bus = [],
         image = [\<lparr>main_type = ascii ''USB'', sub_type = ascii ''UBOOT'',
                    content = [1, 2, 3, 4], cursor = 0\<rparr>]\<rparr>) = Inl ImageError \<and>
   trace (snd (run_bl2_stage 0
      \<lparr>trace = [],
         inbox = identify_reply 0 0 SPL [] # data_bytes # okay_bytes
                   # cbw_script [\<lparr>req_seq = 0, req_size = 8, req_offs = 0, req_flag = 0\<rparr>]
                   @ [cbw_reply 1 0 0 0 1],
         bus = [],
         image = [\<lparr>main_type = ascii ''USB'', sub_type = ascii ''UBOOT'',
                    content = [1, 2, 3, 4], cursor = 0\<rparr>]\<rparr>)) =
     [Write (Str (ascii ''getvar:identify'')), Read (identify_reply 0 0 SPL []),
      Write (Str (ascii ''setvar:burnsteps'')), Read data_bytes,
      Write (Bytes [3, 0, 4, 0xc0]), Read okay_bytes,
      Write (Str (ascii ''getvar:cbw'')), Read (cbw_reply 0 8 0 0 0)] \<and>
   inbox (snd (run_bl2_stage 0
      \<lparr>trace = [],
         inbox = identify_reply 0 0 SPL [] # data_bytes # okay_bytes
                   # cbw_script [\<lparr>req_seq = 0, req_size = 8, req_offs = 0, req_flag = 0\<rparr>]
                   @ [cbw_reply 1 0 0 0 1],
         bus = [],
         image = [\<lparr>main_type = ascii ''USB'', sub_type = ascii ''UBOOT'',
                    content = [1, 2, 3, 4], cursor = 0\<rparr>]\<rparr>)) =
     [data_bytes, okay_bytes, data_bytes, okay_bytes, cbw_reply 1 0 0 0 1]"
proof -
  let ?im = "[\<lparr>main_type = ascii ''USB'', sub_type = ascii ''UBOOT'',
                content = [1, 2, 3, 4 :: byte], cursor = 0\<rparr>]"
  have bs: "send_burnsteps BOOTROM_BURNSTEPS_3
       \<lparr>trace = t, inbox = data_bytes # okay_bytes # rs, bus = b, image = im\<rparr> =
     (Inr (), \<lparr>trace = t @ [Write (Str (ascii ''setvar:burnsteps'')), Read data_bytes,
                              Write (Bytes [3, 0, 4, 0xc0]), Read okay_bytes],
                inbox = rs, bus = b, image = im\<rparr>)" for t rs b im
    using send_burnsteps_eval[OF to_bytes4_burnsteps(4), of t "[]" "[]" rs b im] by simp
  have ca: "chunk_acks 8 = [data_bytes, okay_bytes]"
    using acks_step[of 8] by (simp add: USB_BULK_SIZE_def)
  have cb: "send_and_handle_cbw
       \<lparr>trace = t, inbox = cbw_reply 0 8 0 0 0 # rs, bus = b, image = im\<rparr> =
     (Inr \<lparr>cbw_seq = 0, cbw_size = 8, cbw_offs = 0, cbw_need_checksum = True, cbw_end = 0\<rparr>,
      \<lparr>trace = t @ [Write (Str (ascii ''getvar:cbw'')), Read (cbw_reply 0 8 0 0 0)],
         inbox = rs, bus = b, image = im\<rparr>)" for t rs b im
    using send_and_handle_cbw_run[of 0 8 0 t 0 0 rs b im] by simp
  have tr: "bl2_transfer 0
       \<lparr>cbw_seq = 0, cbw_size = 8, cbw_offs = 0, cbw_need_checksum = True, cbw_end = 0\<rparr>
       \<lparr>trace = t, inbox = rs, bus = b, image = ?im\<rparr> =
     (Inl ImageError, \<lparr>trace = t, inbox = rs, bus = b, image = ?im\<rparr>)" for t rs b
    by (simp add: bl2_transfer_def io_defs item_seek_def item_read_def)
  have "run_bl2_stage 0
      \<lparr>trace = [],
         inbox = identify_reply 0 0 SPL [] # data_bytes # okay_bytes
                   # cbw_script [\<lparr>req_seq = 0, req_size = 8, req_offs = 0, req_flag = 0\<rparr>]
                   @ [cbw_reply 1 0 0 0 1],
         bus = [], image = ?im\<rparr> =
     (Inl ImageError,
      \<lparr>trace = [Write (Str (ascii ''getvar:identify'')), Read (identify_reply 0 0 SPL []),
                 Write (Str (ascii ''setvar:burnsteps'')), Read data_bytes,
                 Write (Bytes [3, 0, 4, 0xc0]), Read okay_bytes,
                 Write (Str (ascii ''getvar:cbw'')), Read (cbw_reply 0 8 0 0 0)],
         inbox = [data_bytes, okay_bytes, data_bytes, okay_bytes, cbw_reply 1 0 0 0 1],
         bus = [], image = ?im\<rparr>)"
    unfolding run_bl2_stage_def
    apply (simp add: io_bind_def io_then_def bs item_get_def cbw_script_def transfer_script_def
        request_cbw_def ca)
    apply (subst cbw_loop.simps)
    apply (simp add: cb tr)
    done
  then show ?thesis by simp
qed

end
